theory Spec2Isabelle
  imports Complex_Main "HOL-Library.Word"
begin

unbundle bit_operations_syntax

section \<open>JavaScript numbers\<close>

text \<open>
  A TypeScript \<open>number\<close> is a double: a finite value, one of the two infinities, or NaN.
  The functions of the repository only test finiteness and integrality, take floors and
  compare, so a finite value is a real here; every double is one.
\<close>

datatype number = NaN | PosInfinity | NegInfinity | Finite real

text \<open>\<open>Number.isFinite\<close> and \<open>Number.isInteger\<close>.\<close>

fun isFinite :: "number \<Rightarrow> bool" where
  "isFinite (Finite x) = True"
| "isFinite d = False"

fun isInteger :: "number \<Rightarrow> bool" where
  "isInteger (Finite x) = (of_int \<lfloor>x\<rfloor> = x)"
| "isInteger d = False"

text \<open>The relational operator \<open><\<close> on numbers: every comparison with NaN is false.\<close>

fun js_lt :: "number \<Rightarrow> number \<Rightarrow> bool" where
  "js_lt NaN b = False"
| "js_lt a NaN = False"
| "js_lt (Finite x) (Finite y) = (x < y)"
| "js_lt (Finite x) PosInfinity = True"
| "js_lt NegInfinity (Finite y) = True"
| "js_lt NegInfinity PosInfinity = True"
| "js_lt a b = False"

abbreviation num :: "int \<Rightarrow> number" where
  "num k \<equiv> Finite (of_int k)"

section \<open>Rule codec (rules.ts)\<close>

text \<open>
  \<open>throw new Error(`Rule must be an integer in [0, 255]. Got: ${decimal}`)\<close>: the
  exception carries the offending value.
\<close>

datatype error = RuleError number

text \<open>\<open>n.toString(2)\<close> for a non-negative integer, and \<open>s.padStart(w, c)\<close>.\<close>

fun toString2 :: "nat \<Rightarrow> string" where
  "toString2 n =
     (if n < 2 then [if n = 0 then CHR ''0'' else CHR ''1'']
      else toString2 (n div 2) @ [if n mod 2 = 0 then CHR ''0'' else CHR ''1''])"

declare toString2.simps [simp del]

definition padStart :: "nat \<Rightarrow> char \<Rightarrow> string \<Rightarrow> string" where
  "padStart w c s = replicate (w - length s) c @ s"

definition to8BitBinary :: "number \<Rightarrow> error + string" where
  "to8BitBinary decimal =
     (if \<not> isInteger decimal \<or> js_lt decimal (num 0) \<or> js_lt (num 255) decimal
      then Inl (RuleError decimal)
      else (case decimal of
              Finite x \<Rightarrow> Inr (padStart 8 CHR ''0'' (toString2 (nat \<lfloor>x\<rfloor>)))
            | _ \<Rightarrow> Inl (RuleError decimal)))"

section \<open>Simulation engine (useElementaryAutomaton.ts)\<close>

text \<open>
  A cell is \<open>0 | 1\<close>, held as a natural number. \<open>xs[k] ?? d\<close> reads a cell of a row, with
  \<open>d\<close> where the index is outside the row.
\<close>

definition nth_or :: "'a list \<Rightarrow> nat \<Rightarrow> 'a \<Rightarrow> 'a" where
  "nth_or xs k d = (if k < length xs then xs ! k else d)"

definition countOnes :: "nat list \<Rightarrow> nat" where
  "countOnes values = fold (\<lambda>b acc. acc + b) values 0"

definition clampRuleDecimal :: "number \<Rightarrow> nat" where
  "clampRuleDecimal ruleDecimal =
     (case ruleDecimal of
        Finite x \<Rightarrow> nat (max 0 (min 255 \<lfloor>x\<rfloor>))
      | _ \<Rightarrow> 0)"

text \<open>
  \<open>idx = (left << 2) | (current << 1) | right\<close>, then \<open>(ruleDecimal >> idx) & 1\<close>. The
  rule is below \<open>2 ^ 31\<close> and the shift below 32, where the 32-bit operators of
  JavaScript agree with the unbounded ones.
\<close>

definition applyElementaryRule :: "nat \<Rightarrow> nat \<Rightarrow> nat \<Rightarrow> nat \<Rightarrow> nat" where
  "applyElementaryRule ruleDecimal left current right =
     (let idx = push_bit 2 left OR push_bit 1 current OR right
      in drop_bit idx ruleDecimal AND 1)"

text \<open>
  The callback of \<open>Array.from\<close> in the interval effect: the next value of cell \<open>i\<close>, read
  from the previous row. \<open>(i - 1 + n) % n\<close> is computed on integers (it is \<open>n - 1\<close> at
  \<open>i = 0\<close>).
\<close>

definition nextCell :: "nat \<Rightarrow> nat \<Rightarrow> nat list \<Rightarrow> nat \<Rightarrow> nat" where
  "nextCell rule boundaryValue prevBlocks i =
     (let n = length prevBlocks in
      if n = 0 then boundaryValue
      else
        let left = nth_or prevBlocks (nat ((int i - 1 + int n) mod int n)) boundaryValue;
            current = nth_or prevBlocks i boundaryValue;
            right = nth_or prevBlocks ((i + 1) mod n) boundaryValue
        in applyElementaryRule rule left current right)"

definition nextRow :: "nat \<Rightarrow> nat \<Rightarrow> nat list \<Rightarrow> nat list" where
  "nextRow rule boundaryValue prevBlocks =
     map (nextCell rule boundaryValue prevBlocks) [0..<length prevBlocks]"

text \<open>
  The histories are JavaScript arrays: \<open>xs.slice(0, k)\<close> is \<open>take k xs\<close>, and the
  assignment \<open>xs[i] = v\<close> beyond the end extends the array, leaving holes (\<open>None\<close>).
\<close>

definition array_set :: "'a option list \<Rightarrow> nat \<Rightarrow> 'a \<Rightarrow> 'a option list" where
  "array_set xs i v =
     (if i < length xs then xs[i := Some v]
      else xs @ replicate (i - length xs) None @ [Some v])"

record generation_row =
  row_generation :: nat
  row_blocks :: "nat list"

record automaton_state =
  blocks :: "nat list"
  generation :: nat
  isRunning :: bool
  onesHistory :: "nat option list"
  blocksHistory :: "generation_row option list"

text \<open>The state update of one tick of the interval (\<open>setState((prev) => ...)\<close>).\<close>

definition tick :: "nat \<Rightarrow> nat \<Rightarrow> int \<Rightarrow> automaton_state \<Rightarrow> automaton_state" where
  "tick rule boundaryValue generations prev =
     (let nextBlocks = nextRow rule boundaryValue (blocks prev);
          nextGeneration = generation prev + 1;
          nextHistory =
            array_set (take (generation prev + 1) (onesHistory prev)) nextGeneration
              (countOnes nextBlocks);
          nextBlocksHistory =
            array_set (take (generation prev + 1) (blocksHistory prev)) nextGeneration
              \<lparr>row_generation = nextGeneration, row_blocks = nextBlocks\<rparr>
      in \<lparr>blocks = nextBlocks,
          generation = nextGeneration,
          isRunning = (if int nextGeneration \<ge> generations then False else isRunning prev),
          onesHistory = nextHistory,
          blocksHistory = nextBlocksHistory\<rparr>)"

text \<open>
  The interval exists only while \<open>state.isRunning\<close> holds (\<open>if (!state.isRunning) return\<close>):
  the step relation of the engine is the tick, enabled in a running state.
\<close>

inductive step :: "nat \<Rightarrow> nat \<Rightarrow> int \<Rightarrow> automaton_state \<Rightarrow> automaton_state \<Rightarrow> bool" where
  step_tick: "isRunning s \<Longrightarrow> step rule boundaryValue generations s (tick rule boundaryValue generations s)"

text \<open>
  Seeding. \<open>Math.random()\<close> is a stream of draws \<open>rnd 0, rnd 1, ...\<close>, each in \<open>[0, 1)\<close>;
  the Fisher-Yates loop runs \<open>i\<close> from \<open>length - 1\<close> down to 1 and takes one draw per round.
\<close>

fun shuffle_from :: "(nat \<Rightarrow> real) \<Rightarrow> nat \<Rightarrow> nat list \<Rightarrow> nat list" where
  "shuffle_from rnd 0 indices = indices"
| "shuffle_from rnd (Suc k) indices =
     (let i = Suc k;
          j = nat \<lfloor>rnd (length indices - 1 - i) * real (i + 1)\<rfloor>
      in shuffle_from rnd k (indices[i := indices ! j, j := indices ! i]))"

text \<open>A \<open>Set<number>\<close> in insertion order; \<open>set.add(i)\<close>.\<close>

definition set_add :: "nat list \<Rightarrow> nat \<Rightarrow> nat list" where
  "set_add s i = (if i \<in> set s then s else s @ [i])"

text \<open>The loop \<open>for (const idx of seedIndices)\<close> of the explicit branch.\<close>

fun collectSeeds :: "nat \<Rightarrow> number list \<Rightarrow> nat list \<Rightarrow> nat list" where
  "collectSeeds totalItems [] s = s"
| "collectSeeds totalItems (idx # rest) s =
     (if \<not> isFinite idx then collectSeeds totalItems rest s
      else (case idx of
              Finite x \<Rightarrow>
                (let i = \<lfloor>x\<rfloor> in
                 if i < 0 \<or> i \<ge> int totalItems then collectSeeds totalItems rest s
                 else collectSeeds totalItems rest (set_add s (nat i)))
            | _ \<Rightarrow> collectSeeds totalItems rest s))"

text \<open>
  \<open>Math.max(0, Math.min(totalItems, Math.floor(initialOnes)))\<close>, as the number of rounds
  of the loop \<open>for (k = 0; k < n; k++)\<close>: none for NaN.
\<close>

definition onesCount :: "nat \<Rightarrow> number \<Rightarrow> nat" where
  "onesCount totalItems initialOnes =
     (case initialOnes of
        Finite x \<Rightarrow> nat (max 0 (min (int totalItems) \<lfloor>x\<rfloor>))
      | PosInfinity \<Rightarrow> totalItems
      | _ \<Rightarrow> 0)"

definition makeInitialValues ::
  "nat \<Rightarrow> number \<Rightarrow> nat option \<Rightarrow> number list option \<Rightarrow> (nat \<Rightarrow> real) \<Rightarrow> nat list" where
  "makeInitialValues totalItems initialOnes boundaryValue seedIndices rnd =
     (let n = onesCount totalItems initialOnes;
          values = replicate totalItems (case boundaryValue of Some b \<Rightarrow> b | None \<Rightarrow> 0);
          seeds = (case seedIndices of Some given \<Rightarrow> given | None \<Rightarrow> [])
      in if totalItems = 0 then values
         else if seedIndices \<noteq> None \<and> length seeds > 0
         then fold (\<lambda>i vs. vs[i := 1]) (collectSeeds totalItems seeds []) values
         else if n = 0 then values
         else
           let indices = shuffle_from rnd (totalItems - 1) [0..<totalItems]
           in fold (\<lambda>k vs. vs[indices ! k := 1]) [0..<n] values)"

text \<open>
  \<open>start\<close>: seeds generation 0 and enters the running state. The hook's \<open>boundaryValue\<close>
  has the default 0, so it is always defined when it reaches \<open>makeInitialValues\<close>.
\<close>

definition start ::
  "nat \<Rightarrow> number \<Rightarrow> nat \<Rightarrow> number list option \<Rightarrow> (nat \<Rightarrow> real) \<Rightarrow> automaton_state" where
  "start totalItems initialOnes boundaryValue seedIndices rnd =
     (let blocks0 =
            makeInitialValues totalItems initialOnes (Some boundaryValue) seedIndices rnd
      in \<lparr>blocks = blocks0,
          generation = 0,
          isRunning = True,
          onesHistory = [Some (countOnes blocks0)],
          blocksHistory = [Some \<lparr>row_generation = 0, row_blocks = blocks0\<rparr>]\<rparr>)"

text \<open>Concrete inputs for the examples: a stream of draws, and a running state.\<close>

definition zero_draws :: "nat \<Rightarrow> real" where
  "zero_draws k = 0"

definition example_state :: automaton_state where
  "example_state =
     \<lparr>blocks = [1, 0, 0, 0, 0], generation = 0, isRunning = True,
      onesHistory = [Some 1],
      blocksHistory = [Some \<lparr>row_generation = 0, row_blocks = [1, 0, 0, 0, 0]\<rparr>]\<rparr>"

text \<open>The invariant of a run with the generation bound \<open>G\<close>.\<close>

definition run_inv :: "int \<Rightarrow> automaton_state \<Rightarrow> bool" where
  "run_inv G s \<longleftrightarrow>
     int (generation s) \<le> G \<and> (isRunning s \<longleftrightarrow> int (generation s) < G)
     \<and> length (blocksHistory s) = generation s + 1
     \<and> (\<forall>k \<le> generation s. \<exists>row. blocksHistory s ! k = Some \<lparr>row_generation = k, row_blocks = row\<rparr>)"

section \<open>Bitset URL codec (urlState.ts)\<close>

text \<open>
  \<open>clampInt(value, min, max)\<close>, called with integer literals for the bounds: the floor of a
  finite value, \<open>min\<close> for any other, then clamped.
\<close>

definition clampInt :: "number \<Rightarrow> int \<Rightarrow> int \<Rightarrow> int" where
  "clampInt value lo hi =
     (let v = (if isFinite value then (case value of Finite x \<Rightarrow> \<lfloor>x\<rfloor> | _ \<Rightarrow> lo) else lo)
      in max lo (min hi v))"

text \<open>
  \<open>uniqSortedIndices\<close>: the same collecting loop as in \<open>makeInitialValues\<close>, then
  \<open>Array.from(set).sort((a, b) => a - b)\<close>.
\<close>

definition uniqSortedIndices :: "number list \<Rightarrow> nat \<Rightarrow> nat list" where
  "uniqSortedIndices indices totalItems = sort (collectSeeds totalItems indices [])"

subsection \<open>The platform's base64 functions\<close>

text \<open>
  \<open>btoa\<close> and \<open>atob\<close> are built into the browser. They are modelled after their standard
  (RFC 4648, section 4, and the forgiving-base64 decoding of the WHATWG Infra standard),
  on bit strings, most significant bit first. A binary string (every character code below
  256) is a list of bytes.
\<close>

type_synonym byte = "8 word"

definition base64_alphabet :: string where
  "base64_alphabet = ''ABCDEFGHIJKLMNOPQRSTUVWXYZabcdefghijklmnopqrstuvwxyz0123456789+/''"

fun index_of :: "'a \<Rightarrow> 'a list \<Rightarrow> nat" where
  "index_of c [] = 0"
| "index_of c (x # xs) = (if x = c then 0 else Suc (index_of c xs))"

definition char_of_sextet :: "nat \<Rightarrow> char" where
  "char_of_sextet n = base64_alphabet ! n"

definition sextet_of_char :: "char \<Rightarrow> nat" where
  "sextet_of_char c = index_of c base64_alphabet"

definition is_base64_char :: "char \<Rightarrow> bool" where
  "is_base64_char c = (c \<in> set base64_alphabet)"

definition byte_bits :: "byte \<Rightarrow> bool list" where
  "byte_bits w = [bit w 7, bit w 6, bit w 5, bit w 4, bit w 3, bit w 2, bit w 1, bit w 0]"

definition sextet_bits :: "nat \<Rightarrow> bool list" where
  "sextet_bits n = [bit n 5, bit n 4, bit n 3, bit n 2, bit n 1, bit n 0]"

text \<open>The value of a group of bits, most significant first.\<close>

definition byte_of_bits :: "bool list \<Rightarrow> byte" where
  "byte_of_bits bs = horner_sum of_bool 2 (rev bs)"

definition sextet_of_bits :: "bool list \<Rightarrow> nat" where
  "sextet_of_bits bs = horner_sum of_bool 2 (rev bs)"

text \<open>
  Encoding cuts the bits into groups of six; a last group of fewer bits is filled with
  zero bits. Decoding cuts into groups of eight and discards the bits left over.
\<close>

fun bits_to_sextets :: "bool list \<Rightarrow> nat list" where
  "bits_to_sextets [] = []"
| "bits_to_sextets (b5 # b4 # b3 # b2 # b1 # b0 # rest) =
     sextet_of_bits [b5, b4, b3, b2, b1, b0] # bits_to_sextets rest"
| "bits_to_sextets bs = [sextet_of_bits (bs @ replicate (6 - length bs) False)]"

fun bits_to_bytes :: "bool list \<Rightarrow> byte list" where
  "bits_to_bytes (b7 # b6 # b5 # b4 # b3 # b2 # b1 # b0 # rest) =
     byte_of_bits [b7, b6, b5, b4, b3, b2, b1, b0] # bits_to_bytes rest"
| "bits_to_bytes bs = []"

definition btoa :: "byte list \<Rightarrow> string" where
  "btoa bin =
     (let chars = map char_of_sextet (bits_to_sextets (concat (map byte_bits bin)))
      in chars @ replicate ((4 - length chars mod 4) mod 4) CHR ''='')"

text \<open>
  \<open>atob\<close> throws an \<open>InvalidCharacterError\<close> on failure. It removes ASCII whitespace (tab,
  line feed, form feed, carriage return, space); if the length is then a multiple of four
  it removes one or two trailing \<open>=\<close>; a length of remainder one, or a character outside
  the alphabet, is a failure.
\<close>

datatype dom_exception = InvalidCharacterError

definition is_ascii_whitespace :: "char \<Rightarrow> bool" where
  "is_ascii_whitespace c =
     (c = CHR 0x09 \<or> c = CHR 0x0A \<or> c = CHR 0x0C \<or> c = CHR 0x0D \<or> c = CHR 0x20)"

definition strip_padding :: "string \<Rightarrow> string" where
  "strip_padding s =
     (if length s \<ge> 2 \<and> drop (length s - 2) s = ''=='' then take (length s - 2) s
      else if length s \<ge> 1 \<and> drop (length s - 1) s = ''='' then take (length s - 1) s
      else s)"

definition atob :: "string \<Rightarrow> dom_exception + byte list" where
  "atob s =
     (let data = filter (\<lambda>c. \<not> is_ascii_whitespace c) s;
          data = (if length data mod 4 = 0 then strip_padding data else data)
      in if length data mod 4 = 1 then Inl InvalidCharacterError
         else if list_ex (\<lambda>c. \<not> is_base64_char c) data then Inl InvalidCharacterError
         else Inr (bits_to_bytes (concat (map (\<lambda>c. sextet_bits (sextet_of_char c)) data))))"

subsection \<open>Base64url helpers and the seed bitset\<close>

text \<open>\<open>s.replaceAll(a, b)\<close> for one-character \<open>a\<close>, with \<open>b\<close> one character or empty.\<close>

definition replaceAll :: "char \<Rightarrow> string \<Rightarrow> string \<Rightarrow> string" where
  "replaceAll a b s = concat (map (\<lambda>c. if c = a then b else [c]) s)"

definition base64UrlEncode :: "byte list \<Rightarrow> string" where
  "base64UrlEncode bytes =
     (let b64 = btoa bytes
      in replaceAll CHR ''='' '''' (replaceAll CHR ''/'' ''_'' (replaceAll CHR ''+'' ''-'' b64)))"

text \<open>
  \<open>base64UrlDecode\<close>. The string handed to \<open>atob\<close> (the URL-safe substitutions reversed
  and the padding restored) has a name here; the exception of \<open>atob\<close> is caught and gives
  \<open>null\<close>.
\<close>

definition restoreBase64 :: "string \<Rightarrow> string" where
  "restoreBase64 s =
     (let b64 = replaceAll CHR ''_'' ''/'' (replaceAll CHR ''-'' ''+'' s);
          padLen = (4 - length b64 mod 4) mod 4
      in b64 @ replicate padLen CHR ''='')"

definition base64UrlDecode :: "string \<Rightarrow> byte list option" where
  "base64UrlDecode s =
     (case atob (restoreBase64 s) of
        Inl e \<Rightarrow> None
      | Inr bin \<Rightarrow> Some bin)"

text \<open>
  \<open>bytes[byteIndex] |= 1 << (7 - bitInByte)\<close> on a \<open>Uint8Array\<close>; a write outside the array
  is ignored, as \<open>list_update\<close> is.
\<close>

definition set_seed_bit :: "nat \<Rightarrow> byte list \<Rightarrow> byte list" where
  "set_seed_bit idx bytes =
     (let byteIndex = idx div 8; bitInByte = idx mod 8
      in bytes[byteIndex := nth_or bytes byteIndex 0 OR push_bit (7 - bitInByte) 1])"

definition encodeSeedBitset :: "number \<Rightarrow> number list \<Rightarrow> string" where
  "encodeSeedBitset totalItems seedIndices =
     (let safeTotal = nat (clampInt totalItems 1 300);
          indices = uniqSortedIndices seedIndices safeTotal;
          byteLen = (safeTotal + 7) div 8;
          bytes = fold set_seed_bit indices (replicate byteLen 0)
      in base64UrlEncode bytes)"

definition seed_bit :: "byte list \<Rightarrow> nat \<Rightarrow> byte" where
  "seed_bit bytes idx =
     (let byteIndex = idx div 8; bitInByte = idx mod 8; b = nth_or bytes byteIndex 0
      in drop_bit (7 - bitInByte) b AND 1)"

text \<open>
  The packed bit of index \<open>idx\<close>: bit \<open>7 - idx mod 8\<close> of byte \<open>idx div 8\<close>; a byte that the
  payload does not have holds no bit.
\<close>

definition packed_bit :: "byte list \<Rightarrow> nat \<Rightarrow> bool" where
  "packed_bit bytes idx = (idx div 8 < length bytes \<and> bit (bytes ! (idx div 8)) (7 - idx mod 8))"

definition decodeSeedBitset :: "number \<Rightarrow> string \<Rightarrow> nat list option" where
  "decodeSeedBitset totalItems encoded =
     (let safeTotal = nat (clampInt totalItems 1 300)
      in case base64UrlDecode encoded of
           None \<Rightarrow> None
         | Some bytes \<Rightarrow> Some (filter (\<lambda>idx. seed_bit bytes idx = 1) [0..<safeTotal]))"

text \<open>The two URL-safe substitutions of \<open>base64UrlEncode\<close> on one character.\<close>

definition url_char :: "char \<Rightarrow> char" where
  "url_char c = (if c = CHR ''/'' then CHR ''_'' else if c = CHR ''+'' then CHR ''-'' else c)"

subsection \<open>The shareable query string\<close>

text \<open>
  \<open>URLSearchParams\<close> is the platform's: an ordered list of name-value pairs. \<open>get\<close> returns
  the first value of a name or \<open>null\<close>; \<open>set\<close> overwrites the first pair of the name and
  removes the others, or appends; \<open>toString\<close> is the \<open>application/x-www-form-urlencoded\<close>
  serializer of the URL standard: the characters \<open>*-._\<close>, digits and letters stay, a space
  becomes \<open>+\<close>, every other byte is written \<open>%XX\<close>. Parsing the location's search string is
  left to the platform: the parsed list is the input.
\<close>

type_synonym params = "(string \<times> string) list"

definition params_get :: "params \<Rightarrow> string \<Rightarrow> string option" where
  "params_get ps name = map_of ps name"

definition params_set :: "params \<Rightarrow> string \<Rightarrow> string \<Rightarrow> params" where
  "params_set ps name v =
     (if name \<in> fst ` set ps
      then takeWhile (\<lambda>p. fst p \<noteq> name) ps @ [(name, v)]
           @ filter (\<lambda>p. fst p \<noteq> name) (tl (dropWhile (\<lambda>p. fst p \<noteq> name) ps))
      else ps @ [(name, v)])"

definition urlencoded_safe :: "char \<Rightarrow> bool" where
  "urlencoded_safe c =
     (c \<in> set ''*-._0123456789ABCDEFGHIJKLMNOPQRSTUVWXYZabcdefghijklmnopqrstuvwxyz'')"

definition hex_digit :: "nat \<Rightarrow> char" where
  "hex_digit n = ''0123456789ABCDEF'' ! n"

definition urlencode_char :: "char \<Rightarrow> string" where
  "urlencode_char c =
     (if urlencoded_safe c then [c]
      else if c = CHR '' '' then ''+''
      else [CHR ''%'', hex_digit (of_char c div 16), hex_digit (of_char c mod 16)])"

definition urlencode :: "string \<Rightarrow> string" where
  "urlencode s = concat (map urlencode_char s)"

fun join_pairs :: "params \<Rightarrow> string" where
  "join_pairs [] = ''''"
| "join_pairs [(k, v)] = urlencode k @ ''='' @ urlencode v"
| "join_pairs ((k, v) # rest) = urlencode k @ ''='' @ urlencode v @ ''&'' @ join_pairs rest"

definition params_toString :: "params \<Rightarrow> string" where
  "params_toString ps = join_pairs ps"

text \<open>
  \<open>String(n)\<close> for an integer below \<open>10 ^ 21\<close> in absolute value: its decimal digits, with a
  minus sign for a negative one.
\<close>

fun digits_of :: "nat \<Rightarrow> string" where
  "digits_of n =
     (if n < 10 then [''0123456789'' ! n]
      else digits_of (n div 10) @ [''0123456789'' ! (n mod 10)])"

declare digits_of.simps [simp del]

definition String_of :: "int \<Rightarrow> string" where
  "String_of k = (if k < 0 then CHR ''-'' # digits_of (nat (- k)) else digits_of (nat k))"

record shareable_state =
  s_ruleDecimal :: number
  s_totalItems :: number
  s_generations :: number
  s_delay :: number
  s_seedIndices :: "number list"

definition buildShareableSearch :: "shareable_state \<Rightarrow> string" where
  "buildShareableSearch state =
     (let params = [];
          params = params_set params ''r'' (String_of (clampInt (s_ruleDecimal state) 0 255));
          params = params_set params ''w'' (String_of (clampInt (s_totalItems state) 1 300));
          params = params_set params ''g'' (String_of (clampInt (s_generations state) 1 500));
          params = params_set params ''d'' (String_of (clampInt (s_delay state) 10 5000));
          params = params_set params ''s''
                     (encodeSeedBitset (s_totalItems state) (s_seedIndices state));
          s = params_toString params
      in if length s > 0 then CHR ''?'' # s else '''')"

text \<open>
  \<open>parseIntParam\<close>. \<open>Number(raw)\<close> is the platform's conversion of a string to a number; it
  is a parameter (\<open>toNumber\<close>) of the functions that call it.
\<close>

definition parseIntParam :: "(string \<Rightarrow> number) \<Rightarrow> params \<Rightarrow> string \<Rightarrow> int \<Rightarrow> int" where
  "parseIntParam toNumber params key fallback =
     (case params_get params key of
        None \<Rightarrow> fallback
      | Some raw \<Rightarrow>
          (let n = toNumber raw
           in if isFinite n then (case n of Finite x \<Rightarrow> \<lfloor>x\<rfloor> | _ \<Rightarrow> fallback) else fallback))"

text \<open>
  The result of \<open>parseShareableStateFromLocation\<close> is a partial state: the four numbers are
  always there, \<open>seedIndices\<close> may be left out (\<open>None\<close>). An array is truthy, also the empty
  one, so the field is there exactly when the decoding did not return \<open>null\<close>.
\<close>

record parsed_state =
  p_ruleDecimal :: int
  p_totalItems :: int
  p_generations :: int
  p_delay :: int
  p_seedIndices :: "nat list option"

definition parseShareableStateFromLocation :: "(string \<Rightarrow> number) \<Rightarrow> params \<Rightarrow> parsed_state" where
  "parseShareableStateFromLocation toNumber params =
     (let ruleDecimal = clampInt (num (parseIntParam toNumber params ''r'' 22)) 0 255;
          totalItems = clampInt (num (parseIntParam toNumber params ''w'' 118)) 1 300;
          generations = clampInt (num (parseIntParam toNumber params ''g'' 100)) 1 500;
          delay = clampInt (num (parseIntParam toNumber params ''d'' 10)) 10 5000;
          seedEncoded = params_get params ''s'';
          seedIndices =
            (case seedEncoded of
               Some e \<Rightarrow> decodeSeedBitset (num totalItems) e
             | None \<Rightarrow> None)
      in \<lparr>p_ruleDecimal = ruleDecimal,
          p_totalItems = totalItems,
          p_generations = generations,
          p_delay = delay,
          p_seedIndices = (case seedIndices of Some indices \<Rightarrow> Some indices | None \<Rightarrow> None)\<rparr>)"

text \<open>
  A conversion for the examples: \<open>Number\<close> on the empty string and on strings of decimal
  digits, NaN elsewhere (the platform's accepts more: signs, fractions, exponents,
  surrounding whitespace).
\<close>

fun digits_value :: "string \<Rightarrow> nat \<Rightarrow> nat option" where
  "digits_value [] acc = Some acc"
| "digits_value (c # cs) acc =
     (let code = (of_char c :: nat)
      in if 48 \<le> code \<and> code \<le> 57 then digits_value cs (10 * acc + (code - 48)) else None)"

definition Number_of_digits :: "string \<Rightarrow> number" where
  "Number_of_digits raw =
     (case digits_value raw 0 of Some n \<Rightarrow> Finite (real n) | None \<Rightarrow> NaN)"

text \<open>A parsed query for the examples: no \<open>r\<close>, a non-numeric \<open>g\<close>, an explicit empty seed.\<close>

definition example_params :: params where
  "example_params = [(''w'', ''8''), (''s'', ''AA''), (''g'', ''x''), (''d'', ''99999'')]"

section \<open>Starred-configuration store (starredConfigs.ts)\<close>

text \<open>
  A value that \<open>JSON.parse\<close> returns. An object is the list of its properties (each name
  once); \<open>v.name\<close> is \<open>undefined\<close> (\<open>None\<close>) for a missing property and for every value
  that is no object with that property.
\<close>

datatype json =
    JNull
  | JBool bool
  | JNumber number
  | JString string
  | JArray "json list"
  | JObject "(string \<times> json) list"

fun get_prop :: "json \<Rightarrow> string \<Rightarrow> json option" where
  "get_prop (JObject props) name = map_of props name"
| "get_prop v name = None"

text \<open>\<open>!value || typeof value !== "object"\<close> is false exactly for arrays and objects.\<close>

fun is_object :: "json \<Rightarrow> bool" where
  "is_object (JArray items) = True"
| "is_object (JObject props) = True"
| "is_object v = False"

fun is_string :: "json option \<Rightarrow> bool" where
  "is_string (Some (JString s)) = True"
| "is_string v = False"

fun is_finite_number :: "json option \<Rightarrow> bool" where
  "is_finite_number (Some (JNumber n)) = isFinite n"
| "is_finite_number v = False"

definition isStarredConfig :: "json \<Rightarrow> bool" where
  "isStarredConfig value =
     (if \<not> is_object value then False
      else is_string (get_prop value ''id'')
         \<and> is_string (get_prop value ''search'')
         \<and> is_finite_number (get_prop value ''ruleDecimal'')
         \<and> is_finite_number (get_prop value ''createdAt''))"

record starred_config =
  sc_id :: string
  sc_search :: string
  sc_ruleDecimal :: number
  sc_createdAt :: number

definition STORAGE_KEY :: string where
  "STORAGE_KEY = ''rule22.starredConfigs.v1''"

definition MAX_ITEMS :: nat where
  "MAX_ITEMS = 50"

text \<open>
  \<open>JSON.parse\<close> is the platform's; it is a parameter, and \<open>None\<close> is its \<open>SyntaxError\<close>, which
  \<open>safeJsonParse\<close> catches.
\<close>

definition safeJsonParse :: "(string \<Rightarrow> json option) \<Rightarrow> string option \<Rightarrow> json" where
  "safeJsonParse JSON_parse raw =
     (case raw of
        None \<Rightarrow> JNull
      | Some text \<Rightarrow> (case JSON_parse text of None \<Rightarrow> JNull | Some v \<Rightarrow> v))"

fun normalizeSearch :: "string \<Rightarrow> string" where
  "normalizeSearch [] = []"
| "normalizeSearch (c # cs) = (if c = CHR ''?'' then c # cs else CHR ''?'' # c # cs)"

text \<open>The fields of an item that passed \<open>isStarredConfig\<close>.\<close>

fun string_of :: "json option \<Rightarrow> string" where
  "string_of (Some (JString s)) = s"
| "string_of v = []"

fun number_of :: "json option \<Rightarrow> number" where
  "number_of (Some (JNumber n)) = n"
| "number_of v = NaN"

text \<open>
  \<open>{ ...item, search, id }\<close> with \<open>search = normalizeSearch(item.search)\<close> and \<open>id = search\<close>;
  properties of the item beyond the four of a \<open>StarredConfig\<close> are not kept here.
\<close>

definition normalized_entry :: "json \<Rightarrow> starred_config" where
  "normalized_entry item =
     (let search = normalizeSearch (string_of (get_prop item ''search''));
          id = search
      in \<lparr>sc_id = id, sc_search = search,
          sc_ruleDecimal = number_of (get_prop item ''ruleDecimal''),
          sc_createdAt = number_of (get_prop item ''createdAt'')\<rparr>)"

text \<open>The loop \<open>for (const item of items)\<close>, with the set \<open>seen\<close> and the array \<open>out\<close>.\<close>

fun dedupe_loop :: "json list \<Rightarrow> string list \<Rightarrow> starred_config list \<Rightarrow> starred_config list" where
  "dedupe_loop [] seen out = out"
| "dedupe_loop (item # items) seen out =
     (let search = normalizeSearch (string_of (get_prop item ''search''));
          id = search
      in if id = [] then dedupe_loop items seen out
         else if id \<in> set seen then dedupe_loop items seen out
         else dedupe_loop items (seen @ [id]) (out @ [normalized_entry item]))"

text \<open>
  \<open>out.sort((a, b) => b.createdAt - a.createdAt)\<close>: the sort is stable, and on the finite
  numbers that passed \<open>isStarredConfig\<close> the comparator orders by \<open>createdAt\<close>, descending.
\<close>

fun finite_value :: "number \<Rightarrow> real" where
  "finite_value (Finite x) = x"
| "finite_value v = 0"

definition sort_newest_first :: "starred_config list \<Rightarrow> starred_config list" where
  "sort_newest_first out = sort_key (\<lambda>e. - finite_value (sc_createdAt e)) out"

text \<open>
  \<open>loadStarredConfigs\<close>. \<open>window\<close> is \<open>None\<close> where there is none (\<open>typeof window ===
  "undefined"\<close>), and else \<open>localStorage.getItem\<close>.
\<close>

definition loadStarredConfigs ::
  "(string \<Rightarrow> json option) \<Rightarrow> (string \<Rightarrow> string option) option \<Rightarrow> starred_config list" where
  "loadStarredConfigs JSON_parse window =
     (case window of
        None \<Rightarrow> []
      | Some getItem \<Rightarrow>
          (let raw = getItem STORAGE_KEY;
               parsed = safeJsonParse JSON_parse raw
           in case parsed of
                JArray arr \<Rightarrow>
                  (let items = filter isStarredConfig arr;
                       out = dedupe_loop items [] [];
                       out = sort_newest_first out
                   in take MAX_ITEMS out)
              | _ \<Rightarrow> []))"

text \<open>
  The de-duplication in the words of the specification, for comparison with
  \<open>dedupe_loop\<close>: of the entries of one id, the first in list order is kept.
\<close>

fun first_per_id :: "starred_config list \<Rightarrow> starred_config list" where
  "first_per_id [] = []"
| "first_per_id (e # es) = e # filter (\<lambda>x. sc_id x \<noteq> sc_id e) (first_per_id es)"

text \<open>
  A stored list for the examples: the same configuration twice, the older entry first
  (\<open>JSON.parse\<close> tabulated at this one text), and an entry that is not valid.
\<close>

definition example_raw :: string where
  \<open>example_raw =
     ''[{"id":"?r=22","search":"?r=22","ruleDecimal":22,"createdAt":1},{"id":"x","search":"r=22","ruleDecimal":22,"createdAt":2},{"id":7,"search":"?r=30","ruleDecimal":30,"createdAt":3}]''\<close>

definition example_older :: json where
  "example_older =
     JObject [(''id'', JString ''?r=22''), (''search'', JString ''?r=22''),
              (''ruleDecimal'', JNumber (num 22)), (''createdAt'', JNumber (num 1))]"

definition example_newer :: json where
  "example_newer =
     JObject [(''id'', JString ''x''), (''search'', JString ''r=22''),
              (''ruleDecimal'', JNumber (num 22)), (''createdAt'', JNumber (num 2))]"

definition example_invalid :: json where
  "example_invalid =
     JObject [(''id'', JNumber (num 7)), (''search'', JString ''?r=30''),
              (''ruleDecimal'', JNumber (num 30)), (''createdAt'', JNumber (num 3))]"

definition example_array :: json where
  "example_array = JArray [example_older, example_newer, example_invalid]"

definition example_JSON_parse :: "string \<Rightarrow> json option" where
  "example_JSON_parse text = (if text = example_raw then Some example_array else None)"

definition example_storage :: "string \<Rightarrow> string option" where
  "example_storage key = (if key = STORAGE_KEY then Some example_raw else None)"

section \<open>Theorems\<close>

subsection \<open>Rule codec\<close>

lemma toString2_small: "toString2 0 = ''0''" "toString2 (Suc 0) = ''1''"
  by (subst toString2.simps, simp)+

lemma toString2_big: "\<not> n < 2 \<Longrightarrow> toString2 n = toString2 (n div 2) @ [if n mod 2 = 0 then CHR ''0'' else CHR ''1'']"
  by (subst toString2.simps) simp

lemma toString2_length: "n < 2 ^ k \<Longrightarrow> 0 < k \<Longrightarrow> length (toString2 n) \<le> k"
proof (induction k arbitrary: n)
  case 0 then show ?case by simp
next
  case (Suc k)
  show ?case
  proof (cases "n < 2")
    case True 
    then have "n = 0 \<or> n = Suc 0" by auto
    then show ?thesis by (auto simp: toString2_small)
  next
    case False
    then have k: "0 < k" using Suc.prems by (cases k) auto
    have "n div 2 < 2 ^ k" using Suc.prems by simp
    from Suc.IH[OF this k] False show ?thesis by (simp add: toString2_big)
  qed
qed

lemma toString2_pad:
  "n < 2 ^ k \<Longrightarrow> 0 < k \<Longrightarrow>
   padStart k CHR ''0'' (toString2 n) = map (\<lambda>i. if bit n (k - 1 - i) then CHR ''1'' else CHR ''0'') [0..<k]"
proof (induction k arbitrary: n)
  case 0 then show ?case by simp
next
  case (Suc k)
  show ?case
  proof (cases "n < 2")
    case True
    then have n: "n = 0 \<or> n = Suc 0" by auto
    have nb: "\<And>i. i < k \<Longrightarrow> \<not> bit n (k - i)" using n by (auto simp: bit_Suc_0_iff)
    have "padStart (Suc k) CHR ''0'' (toString2 n) = replicate k CHR ''0'' @ [if bit n 0 then CHR ''1'' else CHR ''0'']"
      using n by (auto simp: padStart_def toString2_small bit_Suc_0_iff)
    also have "\<dots> = map (\<lambda>i. if bit n (Suc k - 1 - i) then CHR ''1'' else CHR ''0'') [0..<Suc k]"
      using nb by (intro nth_equalityI) (auto simp: nth_append less_Suc_eq)
    finally show ?thesis .
  next
    case False
    then have k: "0 < k" using Suc.prems by (cases k) auto
    have lt: "n div 2 < 2 ^ k" using Suc.prems by simp
    have len: "length (toString2 (n div 2)) \<le> k" by (rule toString2_length[OF lt k])
    have ts: "toString2 n = toString2 (n div 2) @ [if n mod 2 = 0 then CHR ''0'' else CHR ''1'']"
      using False by (rule toString2_big)
    have "padStart (Suc k) CHR ''0'' (toString2 n)
        = padStart k CHR ''0'' (toString2 (n div 2)) @ [if n mod 2 = 0 then CHR ''0'' else CHR ''1'']"
      using len by (simp add: ts padStart_def Suc_diff_le)
    also have "\<dots> = map (\<lambda>i. if bit (n div 2) (k - 1 - i) then CHR ''1'' else CHR ''0'') [0..<k]
          @ [if n mod 2 = 0 then CHR ''0'' else CHR ''1'']"
      by (simp add: Suc.IH[OF lt k])
    also have "\<dots> = map (\<lambda>i. if bit n (Suc k - 1 - i) then CHR ''1'' else CHR ''0'') [0..<Suc k]"
    proof -
      have a: "\<And>i. i < k \<Longrightarrow> bit (n div 2) (k - Suc i) = bit n (k - i)"
      proof -
        fix i assume "i < k"
        then have "k - i = Suc (k - 1 - i)" by simp
        then show "bit (n div 2) (k - Suc i) = bit n (k - i)" by (simp add: bit_Suc)
      qed
      have b: "(n mod 2 = 0) = (\<not> bit n 0)" by (simp add: bit_0 even_iff_mod_2_eq_zero)
      show ?thesis by (simp add: a b cong: map_cong)
    qed
    finally show ?thesis .
  qed
qed

lemma isInteger_num: "isInteger (num r)" by simp

lemma to8_in: "0 \<le> r \<Longrightarrow> r \<le> 255 \<Longrightarrow>
  to8BitBinary (num r) = Inr (map (\<lambda>i. if bit r (7 - i) then CHR ''1'' else CHR ''0'') [0..<8])"
proof -
  assume r: "0 \<le> r" "r \<le> 255"
  then have lt: "nat r < 2 ^ 8" by simp
  have bits: "\<And>i. bit (nat r) i = bit r i" using r by (simp add: bit_nat_iff)
  have "to8BitBinary (num r) = Inr (padStart 8 CHR ''0'' (toString2 (nat r)))"
    using r by (simp add: to8BitBinary_def)
  also have "padStart 8 CHR ''0'' (toString2 (nat r)) = map (\<lambda>i. if bit (nat r) (8 - 1 - i) then CHR ''1'' else CHR ''0'') [0..<8]"
    by (rule toString2_pad[OF lt]) simp
  finally show ?thesis by (simp add: bits)
qed

lemma to8_out: "\<not> (\<exists>r::int. 0 \<le> r \<and> r \<le> 255 \<and> d = num r) \<Longrightarrow> to8BitBinary d = Inl (RuleError d)"
proof (cases d)
  case (Finite x)
  assume h: "\<not> (\<exists>r::int. 0 \<le> r \<and> r \<le> 255 \<and> d = num r)"
  show ?thesis
  proof (cases "of_int \<lfloor>x\<rfloor> = x")
    case True
    with h Finite have "\<not> (0 \<le> \<lfloor>x\<rfloor> \<and> \<lfloor>x\<rfloor> \<le> 255)" by metis
    then have "x < 0 \<or> 255 < x" using True by linarith
    then show ?thesis using Finite by (auto simp: to8BitBinary_def)
  next
    case False
    then show ?thesis using Finite by (simp add: to8BitBinary_def)
  qed
qed (simp_all add: to8BitBinary_def)

text \<open>
  C7. \<open>to8BitBinary\<close> (the spec's \<open>ruleToBinaryString\<close>) returns, for every integer rule from 0
  to 255, its eight binary digits, most significant first, padded with zeros: 22 gives
  00010110, 255 gives 11111111 and 0 gives 00000000. Every other number (a non-integer, a
  negative one, one above 255, an infinity or NaN) raises the rule error.
\<close>

theorem to8BitBinary_spec:
  "(\<forall>r::int. 0 \<le> r \<and> r \<le> 255 \<longrightarrow>
      to8BitBinary (num r) = Inr (map (\<lambda>i. if bit r (7 - i) then CHR ''1'' else CHR ''0'') [0..<8]))
   \<and> to8BitBinary (num 22) = Inr ''00010110''
   \<and> to8BitBinary (num 255) = Inr ''11111111''
   \<and> to8BitBinary (num 0) = Inr ''00000000''
   \<and> (\<forall>d. \<not> (\<exists>r::int. 0 \<le> r \<and> r \<le> 255 \<and> d = num r) \<longrightarrow> to8BitBinary d = Inl (RuleError d))"
proof -
  have a: "to8BitBinary (num 22) = Inr ''00010110''"
    using to8_in[of 22] by (simp add: upt_rec)
  have b: "to8BitBinary (num 255) = Inr ''11111111''"
    using to8_in[of 255] by (simp add: upt_rec)
  have c: "to8BitBinary (num 0) = Inr ''00000000''"
    using to8_in[of 0] by (simp add:  upt_rec)
  show ?thesis using a b c to8_in to8_out by blast
qed

theorem to8BitBinary_spec_witness:
  "to8BitBinary (num 150) = Inr ''10010110''
   \<and> to8BitBinary (num 256) = Inl (RuleError (num 256))
   \<and> to8BitBinary (num (- 1)) = Inl (RuleError (num (- 1)))
   \<and> to8BitBinary (Finite (5 / 2)) = Inl (RuleError (Finite (5 / 2)))
   \<and> to8BitBinary NaN = Inl (RuleError NaN)"
proof -
  note t = to8BitBinary_spec
  have 1: "to8BitBinary (num 150) = Inr ''10010110''"
    using t[THEN conjunct1, rule_format, of 150] by (simp add: upt_rec)
  have o: "\<And>d. \<not> (\<exists>r::int. 0 \<le> r \<and> r \<le> 255 \<and> d = num r) \<Longrightarrow> to8BitBinary d = Inl (RuleError d)"
    using t by blast
  have 2: "to8BitBinary (num 256) = Inl (RuleError (num 256))" by (rule o) auto
  have 3: "to8BitBinary (num (- 1)) = Inl (RuleError (num (- 1)))" by (rule o) auto
  have 4: "to8BitBinary (Finite (5 / 2)) = Inl (RuleError (Finite (5 / 2)))"
  proof (rule o, clarify)
    fix r :: int assume "(5 / 2 :: real) = of_int r"
    then have "of_int (2 * r) = (of_int 5 :: real)" by simp
    then have "2 * r = 5" by (simp only: of_int_eq_iff)
    then show False by presburger
  qed
  have 5: "to8BitBinary NaN = Inl (RuleError NaN)" by (rule o) auto
  show ?thesis using 1 2 3 4 5 by blast
qed

subsection \<open>Simulation engine\<close>

lemma length_nextRow: "length (nextRow rule b row) = length row"
  by (simp add: nextRow_def)

lemma applyElementaryRule_bits:
  assumes "l \<le> 1" "c \<le> 1" "r \<le> 1"
  shows "applyElementaryRule rule l c r = drop_bit (l * 4 + c * 2 + r) rule AND 1"
proof -
  have "l = 0 \<or> l = 1" "c = 0 \<or> c = 1" "r = 0 \<or> r = 1" using assms by auto
  then have "push_bit 2 l OR push_bit 1 c OR r = l * 4 + c * 2 + r"
    by (elim disjE) (simp_all add: push_bit_eq_mult)
  then show ?thesis by (simp add: applyElementaryRule_def)
qed

lemma ring_left_lt: "0 < n \<Longrightarrow> i < n \<Longrightarrow> nat ((int i - 1 + int n) mod int n) < n"
  by (simp add: nat_less_iff)

lemma nextCell_ring:
  assumes n: "0 < length row" and i: "i < length row" and cells: "set row \<subseteq> {0, 1}"
  shows "nextCell rule b row i =
     drop_bit (row ! nat ((int i - 1 + int (length row)) mod int (length row)) * 4
               + row ! i * 2 + row ! ((i + 1) mod length row)) rule AND 1"
proof -
  let ?n = "length row"
  have l: "nat ((int i - 1 + int ?n) mod int ?n) < ?n" using n i by (rule ring_left_lt)
  have r: "(i + 1) mod ?n < ?n" using n by simp
  have le: "\<And>k. k < ?n \<Longrightarrow> row ! k \<le> 1" using cells nth_mem by fastforce
  show ?thesis
    using n i l r
    by (simp add: nextCell_def Let_def nth_or_def applyElementaryRule_bits le del: One_nat_def)
qed

text \<open>
  C1. For a rule from 0 to 255 and a row of \<open>n \<ge> 1\<close> cells, one tick keeps the length and
  gives cell \<open>i\<close> the value \<open>(rule >> (left * 4 + current * 2 + right)) & 1\<close>, where
  \<open>left = row[(i - 1 + n) mod n]\<close>, \<open>current = row[i]\<close> and \<open>right = row[(i + 1) mod n]\<close> are
  read from the row before the tick: every cell of the new row is a function of the same
  prior row.
\<close>

theorem tick_synchronous:
  assumes "rule \<le> 255" and "1 \<le> length (blocks s)" and "set (blocks s) \<subseteq> {0, 1}"
  shows "length (blocks (tick rule b g s)) = length (blocks s)
       \<and> (\<forall>i < length (blocks s).
            blocks (tick rule b g s) ! i =
              drop_bit (blocks s ! nat ((int i - 1 + int (length (blocks s))) mod int (length (blocks s))) * 4
                        + blocks s ! i * 2
                        + blocks s ! ((i + 1) mod length (blocks s))) rule AND 1)"
proof (intro conjI allI impI)
  have eq: "blocks (tick rule b g s) = nextRow rule b (blocks s)"
    by (simp add: tick_def Let_def)
  show "length (blocks (tick rule b g s)) = length (blocks s)"
    by (simp add: eq nextRow_def)
  fix i assume i: "i < length (blocks s)"
  have "blocks (tick rule b g s) ! i = nextCell rule b (blocks s) i"
    using i by (simp add: eq nextRow_def)
  also have "\<dots> = drop_bit (blocks s ! nat ((int i - 1 + int (length (blocks s))) mod int (length (blocks s))) * 4
                        + blocks s ! i * 2
                        + blocks s ! ((i + 1) mod length (blocks s))) rule AND 1"
    using assms i by (intro nextCell_ring) auto
  finally show "blocks (tick rule b g s) ! i =
              drop_bit (blocks s ! nat ((int i - 1 + int (length (blocks s))) mod int (length (blocks s))) * 4
                        + blocks s ! i * 2
                        + blocks s ! ((i + 1) mod length (blocks s))) rule AND 1" .
qed

theorem tick_synchronous_witness:
  "(22::nat) \<le> 255 \<and> 1 \<le> length (blocks example_state) \<and> set (blocks example_state) \<subseteq> {0, 1}
    \<and> length (blocks (tick 22 0 5 example_state)) = 5
    \<and> blocks (tick 22 0 5 example_state) ! 4 = 1
    \<and> blocks (tick 22 0 5 example_state) ! 0 = 1
    \<and> blocks (tick 22 0 5 example_state) ! 2 = 0"
proof -
  have h: "(22::nat) \<le> 255" "1 \<le> length (blocks example_state)" "set (blocks example_state) \<subseteq> {0, 1}"
    by (simp_all add: example_state_def)
  note t = tick_synchronous[OF h, of 0 5]
  have l: "length (blocks example_state) = 5" by (simp add: example_state_def)
  have 0: "length (blocks (tick 22 0 5 example_state)) = 5" using t l by simp
  have 1: "blocks (tick 22 0 5 example_state) ! 4 = 1"
    using t[THEN conjunct2, rule_format, of 4] by (simp add: example_state_def)
  have 2: "blocks (tick 22 0 5 example_state) ! 0 = 1"
    using t[THEN conjunct2, rule_format, of 0] by (simp add: example_state_def)
  have 3: "blocks (tick 22 0 5 example_state) ! 2 = 0"
    using t[THEN conjunct2, rule_format, of 2] by (simp add: example_state_def)
  show ?thesis using h 0 1 2 3 by simp
qed

lemma run_inv_start: "1 \<le> G \<Longrightarrow> run_inv G (start t ones bv seeds rnd)"
  by (simp add: run_inv_def start_def Let_def)

lemma tick_generation: "generation (tick rule b G s) = generation s + 1"
  by (simp add: tick_def Let_def)

lemma tick_isRunning: "isRunning (tick rule b G s) \<longleftrightarrow> int (generation s) + 1 < G \<and> isRunning s"
  by (auto simp add: tick_def Let_def)

lemma tick_blocksHistory:
  "length (blocksHistory s) = generation s + 1 \<Longrightarrow>
   blocksHistory (tick rule b G s) =
     blocksHistory s @ [Some \<lparr>row_generation = generation s + 1, row_blocks = nextRow rule b (blocks s)\<rparr>]"
  by (simp add: tick_def Let_def array_set_def)

lemma run_inv_tick:
  assumes "run_inv G s" and "isRunning s"
  shows "run_inv G (tick rule b G s)"
proof -
  from assms have lt: "int (generation s) < G" and len: "length (blocksHistory s) = generation s + 1"
    and rows: "\<And>k. k \<le> generation s \<Longrightarrow> \<exists>row. blocksHistory s ! k = Some \<lparr>row_generation = k, row_blocks = row\<rparr>"
    by (auto simp: run_inv_def)
  have h: "blocksHistory (tick rule b G s) =
     blocksHistory s @ [Some \<lparr>row_generation = generation s + 1, row_blocks = nextRow rule b (blocks s)\<rparr>]"
    using len by (rule tick_blocksHistory)
  have "\<exists>row. blocksHistory (tick rule b G s) ! k = Some \<lparr>row_generation = k, row_blocks = row\<rparr>"
    if "k \<le> generation s + 1" for k
  proof (cases "k \<le> generation s")
    case True
    then show ?thesis using rows[OF True] len by (simp add: h nth_append)
  next
    case False
    with that have "k = generation s + 1" by simp
    then show ?thesis using len by (simp add: h nth_append)
  qed
  then show ?thesis
    using lt len assms(2) by (auto simp: run_inv_def tick_generation tick_isRunning h)
qed

lemma run_inv_steps:
  assumes "(step rule b G)\<^sup>*\<^sup>* s0 s" and "run_inv G s0"
  shows "run_inv G s"
  using assms
proof (induction rule: rtranclp_induct)
  case base
  then show ?case by simp
next
  case (step y z)
  from step.hyps(2) obtain "isRunning y" and "z = tick rule b G y"
    by (auto elim: step.cases)
  with step.IH[OF step.prems] show ?case by (simp add: run_inv_tick)
qed

lemma run_reaches:
  assumes "run_inv G s0" and "generation s0 = 0"
  shows "int k \<le> G \<Longrightarrow>
     (step rule b G)\<^sup>*\<^sup>* s0 ((tick rule b G ^^ k) s0) \<and> generation ((tick rule b G ^^ k) s0) = k"
proof (induction k)
  case 0
  then show ?case using assms by simp
next
  case (Suc k)
  then have IH: "(step rule b G)\<^sup>*\<^sup>* s0 ((tick rule b G ^^ k) s0)"
      "generation ((tick rule b G ^^ k) s0) = k" by auto
  have "run_inv G ((tick rule b G ^^ k) s0)" using IH(1) assms(1) by (rule run_inv_steps)
  then have "isRunning ((tick rule b G ^^ k) s0)" using IH(2) Suc.prems by (simp add: run_inv_def)
  then have "step rule b G ((tick rule b G ^^ k) s0) ((tick rule b G ^^ Suc k) s0)"
    by (simp add: step_tick)
  with IH show ?case by (simp add: tick_generation)
qed

text \<open>
  C3. A run started with \<open>generations = G\<close> (\<open>G \<ge> 1\<close>, as the configuration bounds it; the
  spec's example is 5): in every state the ticks reach from \<open>start\<close>, the generation pointer
  is at most \<open>G\<close>, the engine is running exactly while the pointer is below \<open>G\<close>, and the
  history holds the rows of generations 0 to the pointer, one each. The ticks do reach a
  state with the pointer at \<open>G\<close>; it is idle, its history has \<open>G + 1\<close> rows, and no further
  step leaves it.
\<close>

theorem generation_bound:
  assumes "1 \<le> G"
  shows "(\<forall>s. (step rule b G)\<^sup>*\<^sup>* (start t ones bv seeds rnd) s \<longrightarrow>
            int (generation s) \<le> G \<and> (isRunning s \<longleftrightarrow> int (generation s) < G)
            \<and> length (blocksHistory s) = generation s + 1
            \<and> (\<forall>k \<le> generation s. \<exists>row.
                  blocksHistory s ! k = Some \<lparr>row_generation = k, row_blocks = row\<rparr>))
       \<and> (\<exists>s. (step rule b G)\<^sup>*\<^sup>* (start t ones bv seeds rnd) s
              \<and> int (generation s) = G \<and> \<not> isRunning s
              \<and> length (blocksHistory s) = nat G + 1
              \<and> (\<forall>s'. \<not> step rule b G s s'))"
proof (intro conjI allI impI)
  let ?init = "start t ones bv seeds rnd"
  have inv0: "run_inv G ?init" using assms by (rule run_inv_start)
  have g0: "generation ?init = 0" by (simp add: start_def Let_def)
  {
    fix s assume r: "(step rule b G)\<^sup>*\<^sup>* ?init s"
    have "run_inv G s" using r inv0 by (rule run_inv_steps)
    then show "int (generation s) \<le> G" "isRunning s \<longleftrightarrow> int (generation s) < G"
      "length (blocksHistory s) = generation s + 1"
      by (simp_all add: run_inv_def)
    fix k assume "k \<le> generation s"
    with \<open>run_inv G s\<close> show "\<exists>row. blocksHistory s ! k = Some \<lparr>row_generation = k, row_blocks = row\<rparr>"
      by (simp add: run_inv_def)
  }
  let ?final = "(tick rule b G ^^ nat G) ?init"
  have le: "int (nat G) \<le> G" using assms by simp
  have reach: "(step rule b G)\<^sup>*\<^sup>* ?init ?final" and gen: "generation ?final = nat G"
    using run_reaches[OF inv0 g0 le] by auto
  have inv: "run_inv G ?final" using reach inv0 by (rule run_inv_steps)
  have genG: "int (generation ?final) = G" using gen assms by simp
  have stopped: "\<not> isRunning ?final" using inv genG by (simp add: run_inv_def)
  have len: "length (blocksHistory ?final) = nat G + 1" using inv gen by (simp add: run_inv_def)
  have nostep: "\<forall>s'. \<not> step rule b G ?final s'" using stopped by (auto elim: step.cases)
  show "\<exists>s. (step rule b G)\<^sup>*\<^sup>* ?init s \<and> int (generation s) = G \<and> \<not> isRunning s
              \<and> length (blocksHistory s) = nat G + 1 \<and> (\<forall>s'. \<not> step rule b G s s')"
    using reach genG stopped len nostep by blast
qed

theorem generation_bound_witness:
  "(1::int) \<le> 5
   \<and> (\<exists>s. (step 22 0 5)\<^sup>*\<^sup>* (start 5 (num 1) 0 (Some [num 0]) zero_draws) s
          \<and> generation s = 5 \<and> \<not> isRunning s \<and> length (blocksHistory s) = 6)"
proof -
  have h: "(1::int) \<le> 5" by simp
  from generation_bound[OF h, THEN conjunct2, of 22 0 5 "num 1" 0 "Some [num 0]" zero_draws]
  obtain s where "(step 22 0 5)\<^sup>*\<^sup>* (start 5 (num 1) 0 (Some [num 0]) zero_draws) s"
    "int (generation s) = 5" "\<not> isRunning s" "length (blocksHistory s) = nat 5 + 1" by blast
  then show ?thesis by auto
qed

lemma set_collectSeeds:
  "set (collectSeeds t seeds acc) =
     set acc \<union> {p. p < t \<and> (\<exists>x. Finite x \<in> set seeds \<and> \<lfloor>x\<rfloor> = int p)}"
proof (induction seeds arbitrary: acc)
  case Nil
  then show ?case by simp
next
  case (Cons idx rest)
  show ?case
  proof (cases idx)
    case (Finite x)
    define i where "i = \<lfloor>x\<rfloor>"
    show ?thesis
    proof (cases "i < 0 \<or> i \<ge> int t")
      case True
      then have "\<And>p. p < t \<Longrightarrow> i \<noteq> int p" by auto
      then show ?thesis using True Finite 
        by (auto simp: Cons.IH simp flip: i_def)
    next
      case False
      then have "nat i < t" "int (nat i) = i" by auto
      then show ?thesis using False Finite
        by (auto simp: Cons.IH set_add_def Let_def simp flip: i_def)
    qed
  qed (auto simp: Cons.IH)
qed

lemma length_fold_set: "length (fold (\<lambda>i vs. vs[i := v]) is vs) = length vs"
  by (induction "is" arbitrary: vs) auto

lemma nth_fold_set:
  "p < length vs \<Longrightarrow>
   fold (\<lambda>i vs. vs[i := v]) is vs ! p = (if p \<in> set is then v else vs ! p)"
proof (induction "is" arbitrary: vs)
  case Nil
  then show ?case by simp
next
  case (Cons i rest)
  then show ?case by (auto simp: nth_list_update)
qed

text \<open>
  C4 (amended). For a non-empty explicit \<open>seedIndices\<close>, the seeded row has \<open>totalItems\<close>
  cells; a cell is 1 at each position \<open>floor idx\<close> of a finite \<open>idx\<close> of the list that lies in
  \<open>[0, totalItems)\<close>, and every other cell holds the background value
  \<open>boundaryValue ?? 0\<close>, which is 0 under the default boundary value.
\<close>

theorem makeInitialValues_explicit:
  assumes "seeds \<noteq> []"
  shows "length (makeInitialValues t ones bv (Some seeds) rnd) = t
       \<and> (\<forall>p < t. makeInitialValues t ones bv (Some seeds) rnd ! p =
             (if \<exists>x. Finite x \<in> set seeds \<and> \<lfloor>x\<rfloor> = int p then 1
              else (case bv of Some b \<Rightarrow> b | None \<Rightarrow> 0)))"
proof (cases "t = 0")
  case True
  then show ?thesis by (simp add: makeInitialValues_def Let_def)
next
  case False
  let ?bg = "case bv of Some b \<Rightarrow> b | None \<Rightarrow> 0"
  have eq: "makeInitialValues t ones bv (Some seeds) rnd =
     fold (\<lambda>i vs. vs[i := 1]) (collectSeeds t seeds []) (replicate t ?bg)"
    using False assms by (simp add: makeInitialValues_def Let_def)
  show ?thesis
    by (auto simp add: eq length_fold_set nth_fold_set set_collectSeeds)
qed

theorem makeInitialValues_explicit_witness:
  "[num 3, Finite (1 / 2), num 3, num 9, NaN] \<noteq> []
   \<and> length (makeInitialValues 5 (num 1) (Some 0) (Some [num 3, Finite (1 / 2), num 3, num 9, NaN]) zero_draws) = 5
   \<and> makeInitialValues 5 (num 1) (Some 0) (Some [num 3, Finite (1 / 2), num 3, num 9, NaN]) zero_draws ! 0 = 1
   \<and> makeInitialValues 5 (num 1) (Some 0) (Some [num 3, Finite (1 / 2), num 3, num 9, NaN]) zero_draws ! 3 = 1
   \<and> makeInitialValues 5 (num 1) (Some 0) (Some [num 3, Finite (1 / 2), num 3, num 9, NaN]) zero_draws ! 4 = 0"
proof -
  have h: "[num 3, Finite (1 / 2), num 3, num 9, NaN] \<noteq> []" by simp
  let ?seeds = "[num 3, Finite (1 / 2), num 3, num 9, NaN]"
  let ?row = "makeInitialValues 5 (num 1) (Some 0) (Some ?seeds) zero_draws"
  note t = makeInitialValues_explicit[OF h, of 5 "num 1" "Some 0" zero_draws]
  have len: "length ?row = 5" using t by (rule conjunct1)
  have cells: "\<forall>p<5. ?row ! p =
      (if \<exists>x. Finite x \<in> set ?seeds \<and> \<lfloor>x\<rfloor> = int p then 1
       else (case Some 0 of Some b \<Rightarrow> b | None \<Rightarrow> 0))"
    using t by (rule conjunct2)
  have e0: "\<exists>x. Finite x \<in> set ?seeds \<and> \<lfloor>x\<rfloor> = int 0"
    by (rule exI[of _ "1 / 2"]) simp
  have e3: "\<exists>x. Finite x \<in> set ?seeds \<and> \<lfloor>x\<rfloor> = int 3"
    by (rule exI[of _ "3"]) simp
  have e4: "\<not> (\<exists>x. Finite x \<in> set ?seeds \<and> \<lfloor>x\<rfloor> = int 4)"
    by (auto simp: floor_eq_iff)
  have c0: "?row ! 0 = 1" using cells[THEN spec, of 0] e0 by simp
  have c3: "?row ! 3 = 1" using cells[THEN spec, of 3] e3 by simp
  have c4: "?row ! 4 = 0" using cells[THEN spec, of 4] e4 by simp
  show ?thesis using h len c0 c3 c4 by blast
qed

text \<open>
  With \<open>boundaryValue = 1\<close> the row is filled with ones first: position 1 is no seed of
  \<open>[0]\<close> and still holds 1.
\<close>

theorem makeInitialValues_boundary_counterexample:
  "makeInitialValues 3 (num 1) (Some 1) (Some [num 0]) zero_draws ! 1 = 1"
  by (simp add: makeInitialValues_def Let_def set_add_def onesCount_def numeral_3_eq_3)

subsection \<open>Bitset URL codec\<close>

lemma distinct_alphabet: "distinct base64_alphabet"
  by (simp add: base64_alphabet_def)

lemma length_alphabet: "length base64_alphabet = 64"
  by (simp add: base64_alphabet_def)

lemma index_of_nth: "distinct xs \<Longrightarrow> n < length xs \<Longrightarrow> index_of (xs ! n) xs = n"
proof (induction xs arbitrary: n)
  case Nil
  then show ?case by simp
next
  case (Cons x xs)
  then show ?case by (cases n) auto
qed

lemma sextet_of_char_of_sextet: "n < 64 \<Longrightarrow> sextet_of_char (char_of_sextet n) = n"
  by (simp add: sextet_of_char_def char_of_sextet_def index_of_nth distinct_alphabet length_alphabet)

lemma is_base64_char_of_sextet: "n < 64 \<Longrightarrow> is_base64_char (char_of_sextet n)"
  by (simp add: is_base64_char_def char_of_sextet_def length_alphabet)

lemma byte_of_byte_bits: "byte_of_bits (byte_bits w) = w"
proof (rule bit_eqI)
  fix n
  assume "possible_bit TYPE(byte) n"
  then have n: "n < 8" by (simp add: possible_bit_word)
  then consider "n = 0" | "n = 1" | "n = 2" | "n = 3" | "n = 4" | "n = 5" | "n = 6" | "n = 7"
    by linarith
  then show "bit (byte_of_bits (byte_bits w)) n = bit w n"
    by cases (simp_all add: byte_of_bits_def byte_bits_def bit_horner_sum_bit_word_iff del: horner_sum_simps)
qed

lemma sextet_of_bits_lt: "length bs = 6 \<Longrightarrow> sextet_of_bits bs < 64"
proof -
  assume "length bs = 6"
  then have "horner_sum of_bool 2 (rev bs) < (2::nat) ^ length (rev bs)"
    by (intro horner_sum_of_bool_2_less)
  then show ?thesis using \<open>length bs = 6\<close> by (simp add: sextet_of_bits_def)
qed

lemma sextet_bits_of_bits: "sextet_bits (sextet_of_bits [b5, b4, b3, b2, b1, b0]) = [b5, b4, b3, b2, b1, b0]"
  by (simp add: sextet_bits_def sextet_of_bits_def bit_horner_sum_bit_iff del: horner_sum_simps)

lemma byte_of_bits_explicit:
  "byte_of_bits [bit w 7, bit w 6, bit w 5, bit w 4, bit w 3, bit w 2, bit w 1, bit w 0] = w"
  using byte_of_byte_bits[of w] by (simp only: byte_bits_def)

lemma bytes3_induct:
  assumes "P []" and "\<And>a. P [a]" and "\<And>a b. P [a, b]"
    and "\<And>a b c rest. P rest \<Longrightarrow> P (a # b # c # rest)"
  shows "P xs"
proof (induction xs rule: length_induct)
  case (1 xs)
  show ?case
  proof (cases xs)
    case Nil
    then show ?thesis using assms(1) by simp
  next
    case (Cons a ys)
    show ?thesis
    proof (cases ys)
      case Nil
      then show ?thesis using Cons assms(2) by simp
    next
      case (Cons b zs)
      note C2 = this
      show ?thesis
      proof (cases zs)
        case Nil
        then show ?thesis using \<open>xs = a # ys\<close> C2 assms(3) by simp
      next
        case (Cons c rest)
        have "P rest" using 1 \<open>xs = a # ys\<close> C2 Cons by simp
        then show ?thesis using \<open>xs = a # ys\<close> C2 Cons assms(4) by simp
      qed
    qed
  qed
qed

lemma replicate_2_4: "replicate 2 x = [x, x]" "replicate 4 x = [x, x, x, x]"
  by (simp_all add: numeral_eq_Suc)

lemma sextets_bytes_roundtrip:
  "bits_to_bytes (concat (map sextet_bits (bits_to_sextets (concat (map byte_bits bytes))))) = bytes"
proof (induction bytes rule: bytes3_induct)
  case 1
  show ?case by simp
next
  case (2 a)
  show ?case
    by (simp add: byte_bits_def sextet_bits_of_bits byte_of_bits_explicit replicate_2_4
          del: One_nat_def)
next
  case (3 a b)
  show ?case
    by (simp add: byte_bits_def sextet_bits_of_bits byte_of_bits_explicit replicate_2_4
          del: One_nat_def)
next
  case (4 a b c rest)
  then show ?case
    by (simp add: byte_bits_def sextet_bits_of_bits byte_of_bits_explicit del: One_nat_def)
qed

lemma length_sextets_mod4:
  "length (bits_to_sextets (concat (map byte_bits bytes))) mod 4 \<in> {0, 2, 3}"
proof (induction bytes rule: bytes3_induct)
  case (4 a b c rest)
  then show ?case by (simp add: byte_bits_def)
qed (simp_all add: byte_bits_def)

lemma sextets_lt: "\<forall>n \<in> set (bits_to_sextets bs). n < 64"
  by (induction bs rule: bits_to_sextets.induct) (simp_all add: sextet_of_bits_lt)

lemma replaceAll_char: "replaceAll a [b] s = map (\<lambda>c. if c = a then b else c) s"
  by (induction s) (simp_all add: replaceAll_def)

lemma replaceAll_empty: "replaceAll a [] s = filter (\<lambda>c. c \<noteq> a) s"
  by (induction s) (simp_all add: replaceAll_def)

lemma base64_char_cases:
  "is_base64_char c \<Longrightarrow> c \<noteq> CHR ''='' \<and> c \<noteq> CHR ''-'' \<and> c \<noteq> CHR ''_'' \<and> \<not> is_ascii_whitespace c"
  by (auto simp: is_base64_char_def base64_alphabet_def is_ascii_whitespace_def)

lemma strip_padding_append:
  assumes "p \<le> 2" and "\<forall>c \<in> set cs. c \<noteq> CHR ''=''"
  shows "strip_padding (cs @ replicate p CHR ''='') = cs"
proof -
  have last: "cs \<noteq> [] \<Longrightarrow> last cs \<noteq> CHR ''=''" using assms(2) by auto
  have ld: "last (drop n cs) = last cs" if "n < length cs" for n
    using that by (rule last_drop)
  have d1: "length cs \<ge> 1 \<Longrightarrow> drop (length cs - 1) cs \<noteq> ''=''"
  proof
    assume l: "length cs \<ge> 1" and e: "drop (length cs - 1) cs = ''=''"
    from l have ne: "cs \<noteq> []" by auto
    from l have "length cs - 1 < length cs" by simp
    then have "last (drop (length cs - 1) cs) = last cs" by (rule ld)
    then have "last cs = CHR ''=''" unfolding e by simp
    then show False using last[OF ne] by simp
  qed
  have d2: "length cs \<ge> 2 \<Longrightarrow> drop (length cs - 2) cs \<noteq> ''==''"
  proof
    assume l: "length cs \<ge> 2" and e: "drop (length cs - 2) cs = ''==''"
    from l have ne: "cs \<noteq> []" by auto
    from l have "length cs - 2 < length cs" by simp
    then have "last (drop (length cs - 2) cs) = last cs" by (rule ld)
    then have "last cs = CHR ''=''" unfolding e by simp
    then show False using last[OF ne] by simp
  qed
  from assms(1) consider "p = 0" | "p = 1" | "p = 2" by linarith
  then show ?thesis
  proof cases
    case 1
    then show ?thesis using d1 d2 by (auto simp: strip_padding_def)
  next
    case 2
    have n2: "drop (length cs - 1) cs @ ''='' \<noteq> ''==''" if "cs \<noteq> []"
    proof
      assume "drop (length cs - 1) cs @ ''='' = ''==''"
      then have "drop (length cs - 1) cs = ''=''" by simp
      moreover have "length cs \<ge> 1" using that by (cases cs) auto
      ultimately show False using d1 by blast
    qed
    have a: "strip_padding (cs @ ''='') = cs"
    proof (cases "cs = []")
      case True
      then show ?thesis by (simp add: strip_padding_def)
    next
      case False
      then have l: "length cs \<ge> 1" by (cases cs) auto
      have "drop (Suc (length cs) - 2) (cs @ ''='') = drop (length cs - 1) cs @ ''=''"
        using l by simp
      then have "drop (length (cs @ ''='') - 2) (cs @ ''='') \<noteq> ''==''"
        using n2[OF False] by simp
      then show ?thesis by (simp add: strip_padding_def)
    qed
    show ?thesis using 2 a by simp
  next
    case 3
    then show ?thesis by (simp add: strip_padding_def replicate_2_4)
  qed
qed

lemma atob_chars:
  assumes chars: "\<forall>c \<in> set cs. is_base64_char c" and len: "length cs mod 4 \<in> {0, 2, 3}"
  shows "atob (cs @ replicate ((4 - length cs mod 4) mod 4) CHR ''='')
         = Inr (bits_to_bytes (concat (map (\<lambda>c. sextet_bits (sextet_of_char c)) cs)))"
proof -
  define p where "p = (4 - length cs mod 4) mod 4"
  define padded where "padded = cs @ replicate p CHR ''=''"
  have p: "p \<le> 2" using len by (auto simp: p_def)
  have noeq: "\<forall>c \<in> set cs. c \<noteq> CHR ''=''" using chars base64_char_cases by blast
  have "\<not> is_ascii_whitespace c" if "c \<in> set padded" for c
  proof (cases "c \<in> set cs")
    case True
    then show ?thesis using chars base64_char_cases by blast
  next
    case False
    then have "c = CHR ''=''" using that by (auto simp: padded_def)
    then show ?thesis by (simp add: is_ascii_whitespace_def)
  qed
  then have ws: "filter (\<lambda>c. \<not> is_ascii_whitespace c) padded = padded"
    by (simp add: filter_id_conv)
  from len have len': "length cs mod 4 = 0 \<or> length cs mod 4 = 2 \<or> length cs mod 4 = 3" by auto
  have split: "(length cs + p) mod 4 = (length cs mod 4 + p) mod 4" by (simp add: mod_add_left_eq)
  have "(length cs + p) mod 4 = 0"
    unfolding split using len' by (elim disjE) (simp_all add: p_def)
  then have m: "length padded mod 4 = 0" by (simp add: padded_def)
  have sp: "strip_padding padded = cs" unfolding padded_def using p noeq by (rule strip_padding_append)
  have n1: "length cs mod 4 \<noteq> 1" using len by auto
  have ok: "\<not> list_ex (\<lambda>c. \<not> is_base64_char c) cs" using chars by (simp add: list_ex_iff)
  have "atob padded = Inr (bits_to_bytes (concat (map (\<lambda>c. sextet_bits (sextet_of_char c)) cs)))"
    unfolding atob_def ws Let_def using m sp n1 ok by simp
  then show ?thesis by (simp add: padded_def p_def)
qed

lemma url_encode_chars:
  "\<forall>c \<in> set cs. c \<noteq> CHR ''='' \<Longrightarrow>
   replaceAll CHR ''='' [] (replaceAll CHR ''/'' ''_'' (replaceAll CHR ''+'' ''-'' (cs @ replicate p CHR ''='')))
     = map url_char cs"
proof (induction cs)
  case Nil
  show ?case by (simp add: replaceAll_char replaceAll_empty)
next
  case (Cons c cs)
  then have IH: "replaceAll CHR ''='' [] (replaceAll CHR ''/'' ''_'' (replaceAll CHR ''+'' ''-'' (cs @ replicate p CHR ''='')))
     = map url_char cs" and c: "c \<noteq> CHR ''=''" by simp_all
  show ?case using IH c by (simp add: replaceAll_char replaceAll_empty url_char_def)
qed

lemma base64UrlEncode_map:
  "base64UrlEncode bytes = map url_char (map char_of_sextet (bits_to_sextets (concat (map byte_bits bytes))))"
proof -
  let ?cs = "map char_of_sextet (bits_to_sextets (concat (map byte_bits bytes)))"
  have chars: "\<forall>c \<in> set ?cs. is_base64_char c"
    using sextets_lt by (auto simp: is_base64_char_of_sextet)
  have noeq: "\<forall>c \<in> set ?cs. c \<noteq> CHR ''=''" using chars base64_char_cases by blast
  show ?thesis
    unfolding base64UrlEncode_def btoa_def Let_def by (rule url_encode_chars[OF noeq])
qed

lemma unurl_url:
  "\<forall>c \<in> set cs. is_base64_char c \<Longrightarrow>
   replaceAll CHR ''_'' ''/'' (replaceAll CHR ''-'' ''+'' (map url_char cs)) = cs"
proof (induction cs)
  case Nil
  show ?case by (simp add: replaceAll_char)
next
  case (Cons c cs)
  then have IH: "replaceAll CHR ''_'' ''/'' (replaceAll CHR ''-'' ''+'' (map url_char cs)) = cs"
    and c: "is_base64_char c" by simp_all
  from c have "c \<noteq> CHR ''-''" "c \<noteq> CHR ''_''" using base64_char_cases by blast+
  then have pt: "(if (if url_char c = CHR ''-'' then CHR ''+'' else url_char c) = CHR ''_'' then CHR ''/''
       else (if url_char c = CHR ''-'' then CHR ''+'' else url_char c)) = c"
    by (simp add: url_char_def)
  have "replaceAll CHR ''_'' ''/'' (replaceAll CHR ''-'' ''+'' (map url_char (c # cs)))
      = (if (if url_char c = CHR ''-'' then CHR ''+'' else url_char c) = CHR ''_'' then CHR ''/''
       else (if url_char c = CHR ''-'' then CHR ''+'' else url_char c))
        # replaceAll CHR ''_'' ''/'' (replaceAll CHR ''-'' ''+'' (map url_char cs))"
    by (simp add: replaceAll_char)
  then show ?case unfolding pt IH .
qed

lemma base64Url_roundtrip: "base64UrlDecode (base64UrlEncode bytes) = Some bytes"
proof -
  let ?sx = "bits_to_sextets (concat (map byte_bits bytes))"
  let ?cs = "map char_of_sextet ?sx"
  have chars: "\<forall>c \<in> set ?cs. is_base64_char c"
    using sextets_lt by (auto simp: is_base64_char_of_sextet)
  have len: "length ?cs mod 4 \<in> {0, 2, 3}" using length_sextets_mod4[of bytes] by simp
  have un: "replaceAll CHR ''_'' ''/'' (replaceAll CHR ''-'' ''+'' (base64UrlEncode bytes)) = ?cs"
    unfolding base64UrlEncode_map using chars by (rule unurl_url)
  have dec: "map (\<lambda>c. sextet_bits (sextet_of_char c)) ?cs = map sextet_bits ?sx"
    using sextets_lt by (auto simp: sextet_of_char_of_sextet)
  have "atob (?cs @ replicate ((4 - length ?cs mod 4) mod 4) CHR ''='') = Inr bytes"
    unfolding atob_chars[OF chars len] dec by (simp add: sextets_bytes_roundtrip)
  then show ?thesis
    unfolding base64UrlDecode_def restoreBase64_def un Let_def by simp
qed

lemma seed_bit_iff: "seed_bit bytes idx = 1 \<longleftrightarrow> packed_bit bytes idx"
proof (cases "idx div 8 < length bytes")
  case True
  have "drop_bit k b AND 1 = (1::byte) \<longleftrightarrow> bit b k" for b :: byte and k
    by (simp add: and_one_eq bit_iff_odd_drop_bit odd_iff_mod_2_eq_one)
  then show ?thesis using True by (simp add: seed_bit_def packed_bit_def nth_or_def Let_def)
next
  case False
  then show ?thesis by (simp add: seed_bit_def packed_bit_def nth_or_def Let_def)
qed

lemma length_set_seed_bit: "length (set_seed_bit idx bytes) = length bytes"
  by (simp add: set_seed_bit_def Let_def)

lemma same_byte_same_bit:
  "p div 8 = idx div 8 \<Longrightarrow> (7 - p mod 8 = 7 - idx mod 8) = (p = idx)" for p idx :: nat
proof -
  assume d: "p div 8 = idx div 8"
  have "p mod 8 < 8" "idx mod 8 < 8" by simp_all
  then have "(7 - p mod 8 = 7 - idx mod 8) = (p mod 8 = idx mod 8)" by linarith
  also have "\<dots> = (p = idx)" using d by (metis div_mult_mod_eq)
  finally show ?thesis .
qed

lemma packed_bit_set_seed_bit:
  "packed_bit (set_seed_bit idx bytes) p \<longleftrightarrow>
     (p = idx \<and> idx div 8 < length bytes) \<or> packed_bit bytes p"
proof (cases "p div 8 < length bytes")
  case False
  then show ?thesis by (auto simp: packed_bit_def length_set_seed_bit)
next
  case True
  show ?thesis
  proof (cases "p div 8 = idx div 8")
    case same: True
    have k: "7 - idx mod 8 < 8" by simp
    have "bit (b OR push_bit (7 - idx mod 8) 1) (7 - p mod 8) \<longleftrightarrow> bit b (7 - p mod 8) \<or> p = idx"
      for b :: byte
      using same_byte_same_bit[OF same]
      by (auto simp: bit_or_iff bit_push_bit_iff bit_1_iff bit_exp_iff possible_bit_word)
    then show ?thesis using True same
      by (auto simp: packed_bit_def set_seed_bit_def Let_def nth_or_def)
  next
    case False
    then have "p \<noteq> idx" by auto
    then show ?thesis using True False
      by (auto simp: packed_bit_def set_seed_bit_def Let_def nth_or_def)
  qed
qed

lemma length_fold_set_seed_bit: "length (fold set_seed_bit idxs bytes) = length bytes"
  by (induction idxs arbitrary: bytes) (simp_all add: length_set_seed_bit)

lemma packed_bit_fold:
  "packed_bit (fold set_seed_bit idxs bytes) p \<longleftrightarrow>
     (p \<in> set idxs \<and> p div 8 < length bytes) \<or> packed_bit bytes p"
proof (induction idxs arbitrary: bytes)
  case Nil
  show ?case by simp
next
  case (Cons i idxs)
  show ?case
    by (auto simp: Cons.IH packed_bit_set_seed_bit length_set_seed_bit)
qed

lemma packed_bit_zero: "\<not> packed_bit (replicate n 0) p"
  by (simp add: packed_bit_def)

lemma decodeSeedBitset_eq:
  "decodeSeedBitset T enc =
     (case base64UrlDecode enc of
        None \<Rightarrow> None
      | Some bytes \<Rightarrow> Some (filter (packed_bit bytes) [0..<nat (clampInt T 1 300)]))"
  by (simp add: decodeSeedBitset_def Let_def seed_bit_iff split: option.splits)

lemma clampInt_num: "clampInt (num k) lo hi = max lo (min hi k)"
  by (simp add: clampInt_def)

lemma clampInt_bounds: "lo \<le> hi \<Longrightarrow> lo \<le> clampInt v lo hi \<and> clampInt v lo hi \<le> hi"
  by (simp add: clampInt_def Let_def)

lemma set_uniqSortedIndices:
  "set (uniqSortedIndices xs t) = {p. p < t \<and> (\<exists>x. Finite x \<in> set xs \<and> \<lfloor>x\<rfloor> = int p)}"
  by (simp add: uniqSortedIndices_def set_collectSeeds)

lemma encode_decode:
  "decodeSeedBitset T (encodeSeedBitset T xs) =
     Some (filter (\<lambda>p. \<exists>x. Finite x \<in> set xs \<and> \<lfloor>x\<rfloor> = int p) [0..<nat (clampInt T 1 300)])"
proof -
  define t where "t = nat (clampInt T 1 300)"
  define bytes where
    "bytes = fold set_seed_bit (uniqSortedIndices xs t) (replicate ((t + 7) div 8) 0)"
  have enc: "encodeSeedBitset T xs = base64UrlEncode bytes"
    by (simp add: encodeSeedBitset_def Let_def bytes_def t_def)
  have pb: "packed_bit bytes p \<longleftrightarrow> (\<exists>x. Finite x \<in> set xs \<and> \<lfloor>x\<rfloor> = int p)" if "p < t" for p
  proof -
    have "p div 8 < (t + 7) div 8" using that by linarith
    then show ?thesis using that
      by (simp add: bytes_def packed_bit_fold packed_bit_zero set_uniqSortedIndices)
  qed
  have "filter (packed_bit bytes) [0..<t] =
        filter (\<lambda>p. \<exists>x. Finite x \<in> set xs \<and> \<lfloor>x\<rfloor> = int p) [0..<t]"
    by (rule filter_cong) (simp_all add: pb)
  then show ?thesis
    unfolding decodeSeedBitset_eq enc base64Url_roundtrip by (simp add: t_def)
qed

text \<open>
  C2. For \<open>totalItems\<close> from 1 to 300 and a list \<open>S\<close> of indices below \<open>totalItems\<close> (in any
  order, with repetitions), decoding the encoded seed bitset gives the indices of \<open>S\<close>,
  sorted and without duplicates: the packing, most significant bit first, and the
  unpadded URL-safe base64 lose nothing.
\<close>

theorem seed_bitset_roundtrip:
  assumes "1 \<le> t" and "t \<le> 300" and "\<forall>x \<in> set S. x < t"
  shows "decodeSeedBitset (num (int t)) (encodeSeedBitset (num (int t)) (map (\<lambda>x. num (int x)) S))
           = Some (sort (remdups S))"
proof -
  have t: "nat (clampInt (num (int t)) 1 300) = t" using assms(1,2) by (simp add: clampInt_def)
  have mem: "(\<exists>x. Finite x \<in> set (map (\<lambda>x. num (int x)) S) \<and> \<lfloor>x\<rfloor> = int p) \<longleftrightarrow> p \<in> set S" for p
    by auto
  let ?out = "filter (\<lambda>p. p \<in> set S) [0..<t]"
  have "set ?out = set S" using assms(3) by auto
  moreover have "sorted ?out" by (rule sorted_wrt_filter[OF sorted_upt])
  moreover have "distinct ?out" by simp
  ultimately have "?out = sort (remdups S)"
    by (intro sorted_distinct_set_unique) simp_all
  then show ?thesis
    unfolding encode_decode t mem by simp
qed

theorem seed_bitset_roundtrip_witness:
  "(1::nat) \<le> 10 \<and> (10::nat) \<le> 300 \<and> list_all (\<lambda>x. x < 10) [9, 0, 3, 3 :: nat]
   \<and> decodeSeedBitset (num 10) (encodeSeedBitset (num 10) [num 9, num 0, num 3, num 3]) = Some [0, 3, 9]"
proof -
  have h: "(1::nat) \<le> 10" "(10::nat) \<le> 300" "\<forall>x \<in> set [9, 0, 3, 3 :: nat]. x < 10" by simp_all
  have "sort (remdups [9, 0, 3, 3 :: nat]) = [0, 3, 9]" by simp
  then show ?thesis using seed_bitset_roundtrip[OF h] by simp
qed

lemma base64UrlDecode_None: "base64UrlDecode enc = None \<longleftrightarrow> isl (atob (restoreBase64 enc))"
  by (cases "atob (restoreBase64 enc)") (simp_all add: base64UrlDecode_def)

lemma base64UrlDecode_Some: "base64UrlDecode enc = Some bytes \<longleftrightarrow> atob (restoreBase64 enc) = Inr bytes"
  by (cases "atob (restoreBase64 enc)") (simp_all add: base64UrlDecode_def)

lemma strictly_ascending_filter_upt: "sorted_wrt (<) (filter P [0..<n])"
  by (rule sorted_wrt_filter) simp

text \<open>
  C6 (amended). \<open>decodeSeedBitset\<close> is total: it returns \<open>null\<close> exactly when \<open>atob\<close> rejects the
  string with the URL-safe substitutions reversed and the padding restored (the exception
  is caught), and otherwise the indices below \<open>clampInt(totalItems, 1, 300)\<close> whose packed
  bit is set in the decoded bytes, in strictly ascending order.
\<close>

theorem decodeSeedBitset_result:
  "(decodeSeedBitset T enc = None \<longleftrightarrow> isl (atob (restoreBase64 enc)))
   \<and> (\<forall>bytes. atob (restoreBase64 enc) = Inr bytes \<longrightarrow>
         (\<exists>out. decodeSeedBitset T enc = Some out
            \<and> sorted_wrt (<) out
            \<and> set out = {idx. idx < nat (clampInt T 1 300) \<and> packed_bit bytes idx}))"
proof (intro conjI allI impI)
  show "decodeSeedBitset T enc = None \<longleftrightarrow> isl (atob (restoreBase64 enc))"
    by (simp add: decodeSeedBitset_eq base64UrlDecode_None[symmetric] split: option.splits)
next
  fix bytes
  assume "atob (restoreBase64 enc) = Inr bytes"
  then have "base64UrlDecode enc = Some bytes" by (simp add: base64UrlDecode_Some)
  then have "decodeSeedBitset T enc = Some (filter (packed_bit bytes) [0..<nat (clampInt T 1 300)])"
    by (simp add: decodeSeedBitset_eq)
  moreover have "sorted_wrt (<) (filter (packed_bit bytes) [0..<nat (clampInt T 1 300)])"
    by (rule strictly_ascending_filter_upt)
  moreover have "set (filter (packed_bit bytes) [0..<nat (clampInt T 1 300)])
      = {idx. idx < nat (clampInt T 1 300) \<and> packed_bit bytes idx}"
    by auto
  ultimately show "\<exists>out. decodeSeedBitset T enc = Some out \<and> sorted_wrt (<) out
            \<and> set out = {idx. idx < nat (clampInt T 1 300) \<and> packed_bit bytes idx}"
    by blast
qed

lemma atob_star: "atob (restoreBase64 ''*'') = Inl InvalidCharacterError"
  by code_simp

lemma atob_gA: "atob (restoreBase64 ''gA'') = Inr [128]"
  by code_simp

theorem decodeSeedBitset_result_witness:
  "decodeSeedBitset (num 8) ''*'' = None
   \<and> (\<exists>out. decodeSeedBitset (num 8) ''gA'' = Some out \<and> sorted_wrt (<) out
         \<and> set out = {idx. idx < nat (clampInt (num 8) 1 300) \<and> packed_bit [128] idx})"
proof -
  have 1: "decodeSeedBitset (num 8) ''*'' = None"
    using decodeSeedBitset_result[of "num 8" "''*''", THEN conjunct1] by (simp add: atob_star)
  have 2: "\<exists>out. decodeSeedBitset (num 8) ''gA'' = Some out \<and> sorted_wrt (<) out
         \<and> set out = {idx. idx < nat (clampInt (num 8) 1 300) \<and> packed_bit [128] idx}"
    using decodeSeedBitset_result[of "num 8" "''gA''", THEN conjunct2, THEN spec, of "[128]"] atob_gA
    by blast
  show ?thesis using 1 2 by blast
qed

text \<open>
  With \<open>totalItems = 0\<close> the bound is clamped to 1: the payload \<open>gA\<close> (one byte, its top bit
  set) decodes to \<open>[0]\<close>, and 0 is no index of \<open>[0, 0)\<close>.
\<close>

theorem decodeSeedBitset_clamp_counterexample:
  "decodeSeedBitset (num 0) ''gA'' = Some [0]"
  by code_simp

text \<open>
  C10. For \<open>totalItems\<close> from 1 to 300 and every string that \<open>base64UrlDecode\<close> accepts,
  whatever the length of its payload, \<open>decodeSeedBitset\<close> succeeds; every index it returns is
  below \<open>totalItems\<close>, and an index is returned exactly when its byte is in the payload and
  its bit is set there: a missing byte reads as zero, and bits at or beyond \<open>totalItems\<close>
  are ignored. Payloads of every length are accepted: every byte list, encoded, decodes
  to itself.
\<close>

theorem decodeSeedBitset_any_payload:
  assumes "1 \<le> t" and "t \<le> 300"
  shows "(\<forall>enc bytes. base64UrlDecode enc = Some bytes \<longrightarrow>
            (\<exists>out. decodeSeedBitset (num (int t)) enc = Some out
               \<and> (\<forall>i \<in> set out. i < t)
               \<and> (\<forall>i. i \<in> set out \<longleftrightarrow>
                     i < t \<and> i div 8 < length bytes \<and> bit (bytes ! (i div 8)) (7 - i mod 8))))
       \<and> (\<forall>bytes. base64UrlDecode (base64UrlEncode bytes) = Some bytes)"
proof (intro conjI allI impI)
  fix enc bytes
  assume d: "base64UrlDecode enc = Some bytes"
  have t: "nat (clampInt (Finite (real t)) 1 300) = t" using assms by (simp add: clampInt_def)
  have "decodeSeedBitset (num (int t)) enc = Some (filter (packed_bit bytes) [0..<t])"
    using d by (simp add: decodeSeedBitset_eq t)
  moreover have "\<forall>i \<in> set (filter (packed_bit bytes) [0..<t]). i < t" by simp
  moreover have "\<forall>i. i \<in> set (filter (packed_bit bytes) [0..<t]) \<longleftrightarrow>
                     i < t \<and> i div 8 < length bytes \<and> bit (bytes ! (i div 8)) (7 - i mod 8)"
    by (auto simp: packed_bit_def)
  ultimately show "\<exists>out. decodeSeedBitset (num (int t)) enc = Some out
               \<and> (\<forall>i \<in> set out. i < t)
               \<and> (\<forall>i. i \<in> set out \<longleftrightarrow>
                     i < t \<and> i div 8 < length bytes \<and> bit (bytes ! (i div 8)) (7 - i mod 8))"
    by blast
next
  fix bytes
  show "base64UrlDecode (base64UrlEncode bytes) = Some bytes" by (rule base64Url_roundtrip)
qed

lemma decode_short: "base64UrlDecode ''gA'' = Some [128]"
  by code_simp

lemma decode_long: "base64UrlDecode ''gAD_'' = Some [128, 0, 255]"
  by code_simp

theorem decodeSeedBitset_any_payload_witness:
  "(1::nat) \<le> 10 \<and> (10::nat) \<le> 300
   \<and> (\<exists>out. decodeSeedBitset (num 10) ''gA'' = Some out \<and> list_all (\<lambda>i. i < 10) out
         \<and> 0 \<in> set out \<and> 9 \<notin> set out)
   \<and> (\<exists>out. decodeSeedBitset (num 10) ''gAD_'' = Some out \<and> list_all (\<lambda>i. i < 10) out
         \<and> 0 \<in> set out \<and> 9 \<notin> set out)"
proof -
  have h: "(1::nat) \<le> 10" "(10::nat) \<le> 300" by simp_all
  note t = decodeSeedBitset_any_payload[OF h, THEN conjunct1, rule_format]
  from t[OF decode_short] obtain out1 where
    o1: "decodeSeedBitset (num 10) ''gA'' = Some out1" "\<forall>i \<in> set out1. i < 10"
      "\<forall>i. i \<in> set out1 \<longleftrightarrow> i < 10 \<and> i div 8 < length [128 :: byte] \<and> bit ([128 :: byte] ! (i div 8)) (7 - i mod 8)"
    by auto
  from t[OF decode_long] obtain out2 where
    o2: "decodeSeedBitset (num 10) ''gAD_'' = Some out2" "\<forall>i \<in> set out2. i < 10"
      "\<forall>i. i \<in> set out2 \<longleftrightarrow> i < 10 \<and> i div 8 < length [128, 0, 255 :: byte] \<and> bit ([128, 0, 255 :: byte] ! (i div 8)) (7 - i mod 8)"
    by auto
  have a1: "0 \<in> set out1" "9 \<notin> set out1" using o1(3) by simp_all
  have a2: "0 \<in> set out2" "9 \<notin> set out2" using o2(3) by (simp_all add: bit_numeral_word_iff)
  show ?thesis using h o1(1,2) o2(1,2) a1 a2 by (auto simp: list_all_iff)
qed

subsection \<open>Shareable query string\<close>

lemma urlencode_safe: "\<forall>c \<in> set s. urlencoded_safe c \<Longrightarrow> urlencode s = s"
  by (induction s) (simp_all add: urlencode_def urlencode_char_def)

lemma digit_safe: "n < 10 \<Longrightarrow> urlencoded_safe (''0123456789'' ! n)"
proof -
  assume "n < 10"
  then have "''0123456789'' ! n \<in> set ''0123456789''" by (intro nth_mem) simp
  moreover have "\<forall>c \<in> set ''0123456789''. urlencoded_safe c"
    by (simp add: urlencoded_safe_def)
  ultimately show ?thesis by blast
qed

lemma digits_of_safe: "\<forall>c \<in> set (digits_of n). urlencoded_safe c"
proof (induction n rule: digits_of.induct)
  case (1 n)
  show ?case
  proof (cases "n < 10")
    case True
    then show ?thesis by (subst digits_of.simps) (simp add: digit_safe)
  next
    case False
    then show ?thesis using 1 by (subst digits_of.simps) (simp add: digit_safe)
  qed
qed

lemma urlencode_String_of: "0 \<le> k \<Longrightarrow> urlencode (String_of k) = String_of k"
  by (simp add: String_of_def urlencode_safe digits_of_safe)

lemma url_char_safe: "is_base64_char c \<Longrightarrow> urlencoded_safe (url_char c)"
  by (auto simp: is_base64_char_def base64_alphabet_def url_char_def urlencoded_safe_def)

lemma base64UrlEncode_safe: "\<forall>c \<in> set (base64UrlEncode bytes). urlencoded_safe c"
  unfolding base64UrlEncode_map using sextets_lt
  by (auto simp: url_char_safe is_base64_char_of_sextet)

lemma urlencode_encodeSeedBitset: "urlencode (encodeSeedBitset T xs) = encodeSeedBitset T xs"
  by (simp add: encodeSeedBitset_def Let_def urlencode_safe base64UrlEncode_safe)

lemma urlencode_keys:
  "urlencode ''r'' = ''r''" "urlencode ''w'' = ''w''" "urlencode ''g'' = ''g''"
  "urlencode ''d'' = ''d''" "urlencode ''s'' = ''s''"
  by (simp_all add: urlencode_def urlencode_char_def urlencoded_safe_def)

lemma buildShareableSearch_eq:
  "buildShareableSearch state =
     ''?r='' @ String_of (clampInt (s_ruleDecimal state) 0 255)
     @ ''&w='' @ String_of (clampInt (s_totalItems state) 1 300)
     @ ''&g='' @ String_of (clampInt (s_generations state) 1 500)
     @ ''&d='' @ String_of (clampInt (s_delay state) 10 5000)
     @ ''&s='' @ encodeSeedBitset (s_totalItems state) (s_seedIndices state)"
proof -
  have b: "0 \<le> clampInt (s_ruleDecimal state) 0 255" "0 \<le> clampInt (s_totalItems state) 1 300"
    "0 \<le> clampInt (s_generations state) 1 500" "0 \<le> clampInt (s_delay state) 10 5000"
    using clampInt_bounds[of 0 255 "s_ruleDecimal state"] clampInt_bounds[of 1 300 "s_totalItems state"]
      clampInt_bounds[of 1 500 "s_generations state"] clampInt_bounds[of 10 5000 "s_delay state"]
    by simp_all
  show ?thesis
    by (simp add: buildShareableSearch_def Let_def params_set_def params_toString_def
          urlencode_keys urlencode_String_of b urlencode_encodeSeedBitset)
qed

lemma String_of_values:
  "String_of 255 = ''255''" "String_of 1 = ''1''" "String_of 500 = ''500''" "String_of 10 = ''10''"
  by code_simp+

lemma encode_empty: "encodeSeedBitset (num 0) [] = ''AA''"
  by code_simp

text \<open>
  C8. \<open>buildShareableSearch\<close> clamps every numeric field before it serializes: the state
  \<open>{ruleDecimal: 999, totalItems: 0, generations: 99999, delay: 1, seedIndices: []}\<close> gives
  \<open>?r=255&w=1&g=500&d=10&s=AA\<close>, and for every state the string is
  \<open>?r=R&w=W&g=G&d=D&s=...\<close> with the decimal digits of \<open>R\<close> in \<open>[0, 255]\<close>, \<open>W\<close> in \<open>[1, 300]\<close>,
  \<open>G\<close> in \<open>[1, 500]\<close> and \<open>D\<close> in \<open>[10, 5000]\<close>.
\<close>

theorem buildShareableSearch_clamps:
  "buildShareableSearch
     \<lparr>s_ruleDecimal = num 999, s_totalItems = num 0, s_generations = num 99999,
      s_delay = num 1, s_seedIndices = []\<rparr> = ''?r=255&w=1&g=500&d=10&s=AA''
   \<and> (\<forall>state. \<exists>r w g d.
         buildShareableSearch state =
           ''?r='' @ String_of r @ ''&w='' @ String_of w @ ''&g='' @ String_of g
           @ ''&d='' @ String_of d
           @ ''&s='' @ encodeSeedBitset (s_totalItems state) (s_seedIndices state)
         \<and> r = clampInt (s_ruleDecimal state) 0 255 \<and> 0 \<le> r \<and> r \<le> 255
         \<and> w = clampInt (s_totalItems state) 1 300 \<and> 1 \<le> w \<and> w \<le> 300
         \<and> g = clampInt (s_generations state) 1 500 \<and> 1 \<le> g \<and> g \<le> 500
         \<and> d = clampInt (s_delay state) 10 5000 \<and> 10 \<le> d \<and> d \<le> 5000)"
proof (intro conjI allI)
  show "buildShareableSearch
     \<lparr>s_ruleDecimal = num 999, s_totalItems = num 0, s_generations = num 99999,
      s_delay = num 1, s_seedIndices = []\<rparr> = ''?r=255&w=1&g=500&d=10&s=AA''"
    using encode_empty by (simp add: buildShareableSearch_eq clampInt_def String_of_values)
next
  fix state
  show "\<exists>r w g d.
         buildShareableSearch state =
           ''?r='' @ String_of r @ ''&w='' @ String_of w @ ''&g='' @ String_of g
           @ ''&d='' @ String_of d
           @ ''&s='' @ encodeSeedBitset (s_totalItems state) (s_seedIndices state)
         \<and> r = clampInt (s_ruleDecimal state) 0 255 \<and> 0 \<le> r \<and> r \<le> 255
         \<and> w = clampInt (s_totalItems state) 1 300 \<and> 1 \<le> w \<and> w \<le> 300
         \<and> g = clampInt (s_generations state) 1 500 \<and> 1 \<le> g \<and> g \<le> 500
         \<and> d = clampInt (s_delay state) 10 5000 \<and> 10 \<le> d \<and> d \<le> 5000"
    using clampInt_bounds[of 0 255 "s_ruleDecimal state"] clampInt_bounds[of 1 300 "s_totalItems state"]
      clampInt_bounds[of 1 500 "s_generations state"] clampInt_bounds[of 10 5000 "s_delay state"]
    by (simp add: buildShareableSearch_eq)
qed

lemma parseIntParam_missing:
  "params_get params key = None \<Longrightarrow> parseIntParam toNumber params key fallback = fallback"
  by (simp add: parseIntParam_def)

lemma parseIntParam_finite:
  "params_get params key = Some raw \<Longrightarrow> toNumber raw = Finite x \<Longrightarrow>
   parseIntParam toNumber params key fallback = \<lfloor>x\<rfloor>"
  by (simp add: parseIntParam_def)

lemma parseIntParam_not_finite:
  "params_get params key = Some raw \<Longrightarrow> \<not> isFinite (toNumber raw) \<Longrightarrow>
   parseIntParam toNumber params key fallback = fallback"
  by (simp add: parseIntParam_def)

lemma parsed_fields:
  "p_ruleDecimal (parseShareableStateFromLocation toNumber params)
     = clampInt (num (parseIntParam toNumber params ''r'' 22)) 0 255"
  "p_totalItems (parseShareableStateFromLocation toNumber params)
     = clampInt (num (parseIntParam toNumber params ''w'' 118)) 1 300"
  "p_generations (parseShareableStateFromLocation toNumber params)
     = clampInt (num (parseIntParam toNumber params ''g'' 100)) 1 500"
  "p_delay (parseShareableStateFromLocation toNumber params)
     = clampInt (num (parseIntParam toNumber params ''d'' 10)) 10 5000"
  by (simp_all add: parseShareableStateFromLocation_def Let_def)

lemma parsed_seedIndices:
  "p_seedIndices (parseShareableStateFromLocation toNumber params)
     = (case params_get params ''s'' of
          Some e \<Rightarrow> decodeSeedBitset (num (p_totalItems (parseShareableStateFromLocation toNumber params))) e
        | None \<Rightarrow> None)"
  by (simp add: parseShareableStateFromLocation_def Let_def split: option.splits)

text \<open>
  C5. For every parsed parameter list (and so for every search string) the result holds
  \<open>ruleDecimal\<close>, \<open>totalItems\<close>, \<open>generations\<close> and \<open>delay\<close> inside \<open>[0, 255]\<close>, \<open>[1, 300]\<close>,
  \<open>[1, 500]\<close> and \<open>[10, 5000]\<close>; a missing \<open>r\<close>, \<open>w\<close>, \<open>g\<close> or \<open>d\<close> gives the default 22, 118,
  100 or 10, and so does one that is no finite number; a finite one gives its floor,
  clamped. \<open>seedIndices\<close> is in the result exactly when \<open>s\<close> is present and decodes against
  the resolved \<open>totalItems\<close>, and it is then the decoded list, also when that list is empty.
\<close>

theorem parseShareableStateFromLocation_spec:
  assumes "st = parseShareableStateFromLocation toNumber params"
  shows "(0 \<le> p_ruleDecimal st \<and> p_ruleDecimal st \<le> 255
       \<and> 1 \<le> p_totalItems st \<and> p_totalItems st \<le> 300
       \<and> 1 \<le> p_generations st \<and> p_generations st \<le> 500
       \<and> 10 \<le> p_delay st \<and> p_delay st \<le> 5000)
     \<and> ((params_get params ''r'' = None \<longrightarrow> p_ruleDecimal st = 22)
       \<and> (params_get params ''w'' = None \<longrightarrow> p_totalItems st = 118)
       \<and> (params_get params ''g'' = None \<longrightarrow> p_generations st = 100)
       \<and> (params_get params ''d'' = None \<longrightarrow> p_delay st = 10))
     \<and> ((\<forall>raw x. params_get params ''r'' = Some raw \<and> toNumber raw = Finite x
              \<longrightarrow> p_ruleDecimal st = max 0 (min 255 \<lfloor>x\<rfloor>))
       \<and> (\<forall>raw x. params_get params ''w'' = Some raw \<and> toNumber raw = Finite x
              \<longrightarrow> p_totalItems st = max 1 (min 300 \<lfloor>x\<rfloor>))
       \<and> (\<forall>raw x. params_get params ''g'' = Some raw \<and> toNumber raw = Finite x
              \<longrightarrow> p_generations st = max 1 (min 500 \<lfloor>x\<rfloor>))
       \<and> (\<forall>raw x. params_get params ''d'' = Some raw \<and> toNumber raw = Finite x
              \<longrightarrow> p_delay st = max 10 (min 5000 \<lfloor>x\<rfloor>)))
     \<and> ((\<forall>raw. params_get params ''r'' = Some raw \<and> \<not> isFinite (toNumber raw)
              \<longrightarrow> p_ruleDecimal st = 22)
       \<and> (\<forall>raw. params_get params ''w'' = Some raw \<and> \<not> isFinite (toNumber raw)
              \<longrightarrow> p_totalItems st = 118)
       \<and> (\<forall>raw. params_get params ''g'' = Some raw \<and> \<not> isFinite (toNumber raw)
              \<longrightarrow> p_generations st = 100)
       \<and> (\<forall>raw. params_get params ''d'' = Some raw \<and> \<not> isFinite (toNumber raw)
              \<longrightarrow> p_delay st = 10))
     \<and> ((p_seedIndices st \<noteq> None \<longleftrightarrow>
            (\<exists>e. params_get params ''s'' = Some e
                \<and> decodeSeedBitset (num (p_totalItems st)) e \<noteq> None))
       \<and> (\<forall>e out. params_get params ''s'' = Some e
              \<and> decodeSeedBitset (num (p_totalItems st)) e = Some out
              \<longrightarrow> p_seedIndices st = Some out))"
proof -
  note f = parsed_fields[of toNumber params, folded assms]
  note s = parsed_seedIndices[of toNumber params, folded assms]
  have bounds: "0 \<le> p_ruleDecimal st \<and> p_ruleDecimal st \<le> 255
       \<and> 1 \<le> p_totalItems st \<and> p_totalItems st \<le> 300
       \<and> 1 \<le> p_generations st \<and> p_generations st \<le> 500
       \<and> 10 \<le> p_delay st \<and> p_delay st \<le> 5000"
    unfolding f by (simp add: clampInt_bounds)
  have missing: "(params_get params ''r'' = None \<longrightarrow> p_ruleDecimal st = 22)
       \<and> (params_get params ''w'' = None \<longrightarrow> p_totalItems st = 118)
       \<and> (params_get params ''g'' = None \<longrightarrow> p_generations st = 100)
       \<and> (params_get params ''d'' = None \<longrightarrow> p_delay st = 10)"
    unfolding f by (simp add: parseIntParam_missing clampInt_def)
  have finite: "(\<forall>raw x. params_get params ''r'' = Some raw \<and> toNumber raw = Finite x
              \<longrightarrow> p_ruleDecimal st = max 0 (min 255 \<lfloor>x\<rfloor>))
       \<and> (\<forall>raw x. params_get params ''w'' = Some raw \<and> toNumber raw = Finite x
              \<longrightarrow> p_totalItems st = max 1 (min 300 \<lfloor>x\<rfloor>))
       \<and> (\<forall>raw x. params_get params ''g'' = Some raw \<and> toNumber raw = Finite x
              \<longrightarrow> p_generations st = max 1 (min 500 \<lfloor>x\<rfloor>))
       \<and> (\<forall>raw x. params_get params ''d'' = Some raw \<and> toNumber raw = Finite x
              \<longrightarrow> p_delay st = max 10 (min 5000 \<lfloor>x\<rfloor>))"
    unfolding f by (auto simp: parseIntParam_finite clampInt_def)
  have fallback: "(\<forall>raw. params_get params ''r'' = Some raw \<and> \<not> isFinite (toNumber raw)
              \<longrightarrow> p_ruleDecimal st = 22)
       \<and> (\<forall>raw. params_get params ''w'' = Some raw \<and> \<not> isFinite (toNumber raw)
              \<longrightarrow> p_totalItems st = 118)
       \<and> (\<forall>raw. params_get params ''g'' = Some raw \<and> \<not> isFinite (toNumber raw)
              \<longrightarrow> p_generations st = 100)
       \<and> (\<forall>raw. params_get params ''d'' = Some raw \<and> \<not> isFinite (toNumber raw)
              \<longrightarrow> p_delay st = 10)"
    unfolding f by (auto simp: parseIntParam_not_finite clampInt_def)
  have seeds: "(p_seedIndices st \<noteq> None \<longleftrightarrow>
            (\<exists>e. params_get params ''s'' = Some e
                \<and> decodeSeedBitset (num (p_totalItems st)) e \<noteq> None))
       \<and> (\<forall>e out. params_get params ''s'' = Some e
              \<and> decodeSeedBitset (num (p_totalItems st)) e = Some out
              \<longrightarrow> p_seedIndices st = Some out)"
    unfolding s by (auto split: option.splits)
  show ?thesis
    by (rule conjI[OF bounds conjI[OF missing conjI[OF finite conjI[OF fallback seeds]]]])
qed

lemma example_params_get:
  "params_get example_params ''r'' = None"
  "params_get example_params ''w'' = Some ''8''"
  "params_get example_params ''g'' = Some ''x''"
  "params_get example_params ''d'' = Some ''99999''"
  "params_get example_params ''s'' = Some ''AA''"
  by (simp_all add: example_params_def params_get_def)

lemma example_numbers:
  "Number_of_digits ''8'' = Finite 8" "Number_of_digits ''99999'' = Finite 99999"
  "\<not> isFinite (Number_of_digits ''x'')"
  by (simp_all add: Number_of_digits_def Let_def)

lemma decode_AA: "decodeSeedBitset (num 8) ''AA'' = Some []"
  by code_simp

theorem parseShareableStateFromLocation_spec_witness:
  "p_ruleDecimal (parseShareableStateFromLocation Number_of_digits example_params) = 22
   \<and> p_totalItems (parseShareableStateFromLocation Number_of_digits example_params) = 8
   \<and> p_generations (parseShareableStateFromLocation Number_of_digits example_params) = 100
   \<and> p_delay (parseShareableStateFromLocation Number_of_digits example_params) = 5000
   \<and> p_seedIndices (parseShareableStateFromLocation Number_of_digits example_params) = Some []"
proof -
  define st where "st = parseShareableStateFromLocation Number_of_digits example_params"
  note t = parseShareableStateFromLocation_spec[OF st_def]
  note missing = t[THEN conjunct2, THEN conjunct1]
  note finite = t[THEN conjunct2, THEN conjunct2, THEN conjunct1]
  note fallback = t[THEN conjunct2, THEN conjunct2, THEN conjunct2, THEN conjunct1]
  note seeds = t[THEN conjunct2, THEN conjunct2, THEN conjunct2, THEN conjunct2]
  have r: "p_ruleDecimal st = 22"
    using missing[THEN conjunct1] example_params_get(1) by (rule mp)
  have "p_totalItems st = max 1 (min 300 \<lfloor>8::real\<rfloor>)"
    using finite[THEN conjunct2, THEN conjunct1, rule_format, of "''8''" 8]
      example_params_get(2) example_numbers(1) by simp
  then have w: "p_totalItems st = 8" by simp
  have g: "p_generations st = 100"
    using fallback[THEN conjunct2, THEN conjunct2, THEN conjunct1, rule_format, of "''x''"]
      example_params_get(3) example_numbers(3) by simp
  have "p_delay st = max 10 (min 5000 \<lfloor>99999::real\<rfloor>)"
    using finite[THEN conjunct2, THEN conjunct2, THEN conjunct2, rule_format, of "''99999''" 99999]
      example_params_get(4) example_numbers(2) by simp
  then have d: "p_delay st = 5000" by simp
  have "decodeSeedBitset (num (p_totalItems st)) ''AA'' = Some []" unfolding w by (rule decode_AA)
  then have s: "p_seedIndices st = Some []"
    using seeds[THEN conjunct2, rule_format, of "''AA''" "[]"] example_params_get(5) by simp
  show ?thesis using r w g d s unfolding st_def by blast
qed

subsection \<open>Starred-configuration store\<close>

lemma sc_id_normalized_entry:
  "sc_id (normalized_entry item) = normalizeSearch (string_of (get_prop item ''search''))"
  by (simp add: normalized_entry_def Let_def)

lemma dedupe_loop_step:
  "dedupe_loop (item # items) seen out =
     (if sc_id (normalized_entry item) = [] \<or> sc_id (normalized_entry item) \<in> set seen
      then dedupe_loop items seen out
      else dedupe_loop items (seen @ [sc_id (normalized_entry item)]) (out @ [normalized_entry item]))"
  by (simp add: sc_id_normalized_entry Let_def)

lemma dedupe_loop_mem:
  "e \<in> set (dedupe_loop items seen out) \<Longrightarrow>
   e \<in> set out \<or>
   (sc_id e \<noteq> [] \<and> sc_id e \<notin> set seen
    \<and> find (\<lambda>x. sc_id x = sc_id e) (map normalized_entry items) = Some e)"
proof (induction items arbitrary: seen out)
  case Nil
  then show ?case by simp
next
  case (Cons item items)
  let ?n = "normalized_entry item"
  show ?case
  proof (cases "sc_id ?n = [] \<or> sc_id ?n \<in> set seen")
    case True
    then have "e \<in> set (dedupe_loop items seen out)"
      using Cons.prems by (simp only: dedupe_loop_step if_True)
    from Cons.IH[OF this] True show ?thesis by auto
  next
    case False
    then have "e \<in> set (dedupe_loop items (seen @ [sc_id ?n]) (out @ [?n]))"
      using Cons.prems by (simp only: dedupe_loop_step if_False)
    from Cons.IH[OF this] False show ?thesis by auto
  qed
qed

lemma dedupe_loop_distinct:
  "distinct (map sc_id out) \<Longrightarrow> set (map sc_id out) \<subseteq> set seen \<Longrightarrow>
   distinct (map sc_id (dedupe_loop items seen out))"
proof (induction items arbitrary: seen out)
  case Nil
  then show ?case by simp
next
  case (Cons item items)
  let ?n = "normalized_entry item"
  show ?case
  proof (cases "sc_id ?n = [] \<or> sc_id ?n \<in> set seen")
    case True
    then show ?thesis
      using Cons.IH[OF Cons.prems] by (simp only: dedupe_loop_step if_True)
  next
    case False
    have d: "distinct (map sc_id (out @ [?n]))" using Cons.prems False by auto
    have s: "set (map sc_id (out @ [?n])) \<subseteq> set (seen @ [sc_id ?n])" using Cons.prems by auto
    show ?thesis using Cons.IH[OF d s] False by (simp only: dedupe_loop_step if_False)
  qed
qed

lemma isStarredConfig_finite:
  "isStarredConfig item \<Longrightarrow>
   isFinite (sc_ruleDecimal (normalized_entry item)) \<and> isFinite (sc_createdAt (normalized_entry item))"
proof -
  assume v: "isStarredConfig item"
  then have r: "is_finite_number (get_prop item ''ruleDecimal'')"
    and c: "is_finite_number (get_prop item ''createdAt'')"
    by (auto simp: isStarredConfig_def split: if_splits)
  have "isFinite (number_of p)" if "is_finite_number p" for p
    using that by (induction p rule: is_finite_number.induct) simp_all
  then show ?thesis using r c by (simp add: normalized_entry_def Let_def)
qed

lemma find_Some_mem: "find P xs = Some x \<Longrightarrow> x \<in> set xs"
  by (induction xs) (auto split: if_splits)

lemma set_sort_newest_first: "set (sort_newest_first out) = set out"
  by (simp add: sort_newest_first_def)

lemma distinct_ids_sort_newest_first:
  "distinct (map sc_id out) \<Longrightarrow> distinct (map sc_id (sort_newest_first out))"
  by (simp add: distinct_map sort_newest_first_def)

lemma distinct_map_take: "distinct (map f xs) \<Longrightarrow> distinct (map f (take n xs))"
  by (simp add: take_map[symmetric])

lemma sorted_sort_newest_first:
  "sorted_wrt (\<lambda>a b. finite_value (sc_createdAt b) \<le> finite_value (sc_createdAt a))
     (sort_newest_first out)"
proof -
  have "sorted (map (\<lambda>e. - finite_value (sc_createdAt e)) (sort_newest_first out))"
    unfolding sort_newest_first_def by (rule sorted_sort_key)
  then show ?thesis by (simp add: sorted_map)
qed

lemma not_lt_finite:
  "isFinite a \<Longrightarrow> isFinite b \<Longrightarrow> \<not> js_lt a b \<longleftrightarrow> finite_value b \<le> finite_value a"
  by (cases a; cases b) auto

text \<open>The loaded list, in terms of the stored array.\<close>

lemma loadStarredConfigs_array:
  assumes "safeJsonParse JSON_parse (getItem STORAGE_KEY) = JArray arr"
  shows "loadStarredConfigs JSON_parse (Some getItem) =
           take MAX_ITEMS (sort_newest_first (dedupe_loop (filter isStarredConfig arr) [] []))"
  using assms by (simp add: loadStarredConfigs_def Let_def)

lemma loaded_props:
  assumes "safeJsonParse JSON_parse (getItem STORAGE_KEY) = JArray arr"
    and "e \<in> set (loadStarredConfigs JSON_parse (Some getItem))"
  shows "sc_id e \<noteq> [] \<and> sc_search e = sc_id e
       \<and> find (\<lambda>x. sc_id x = sc_id e) (map normalized_entry (filter isStarredConfig arr)) = Some e
       \<and> (\<exists>item \<in> set arr. isStarredConfig item \<and> e = normalized_entry item)
       \<and> isFinite (sc_ruleDecimal e) \<and> isFinite (sc_createdAt e)"
proof -
  have "e \<in> set (sort_newest_first (dedupe_loop (filter isStarredConfig arr) [] []))"
    using assms(2) unfolding loadStarredConfigs_array[of JSON_parse getItem arr, OF assms(1)] by (rule in_set_takeD)
  then have "e \<in> set (dedupe_loop (filter isStarredConfig arr) [] [])"
    by (simp add: set_sort_newest_first)
  from dedupe_loop_mem[OF this]
  have ne: "sc_id e \<noteq> []"
    and f: "find (\<lambda>x. sc_id x = sc_id e) (map normalized_entry (filter isStarredConfig arr)) = Some e"
    by simp_all
  from find_Some_mem[OF f] obtain item where
    item: "item \<in> set arr" "isStarredConfig item" "e = normalized_entry item"
    by auto
  have "sc_search e = sc_id e" using item(3) by (simp add: normalized_entry_def Let_def)
  moreover have "isFinite (sc_ruleDecimal e) \<and> isFinite (sc_createdAt e)"
    using isStarredConfig_finite[OF item(2)] item(3) by simp
  ultimately show ?thesis using ne f item by blast
qed

lemma loaded_distinct:
  "distinct (map sc_id (loadStarredConfigs JSON_parse window))"
proof (cases window)
  case None
  then show ?thesis by (simp add: loadStarredConfigs_def)
next
  case (Some getItem)
  show ?thesis
  proof (cases "safeJsonParse JSON_parse (getItem STORAGE_KEY)")
    case (JArray arr)
    have "distinct (map sc_id (dedupe_loop (filter isStarredConfig arr) [] []))"
      by (rule dedupe_loop_distinct) simp_all
    then show ?thesis
      unfolding Some loadStarredConfigs_array[of JSON_parse getItem arr, OF JArray]
      by (intro distinct_map_take distinct_ids_sort_newest_first)
  qed (simp_all add: Some loadStarredConfigs_def Let_def)
qed

lemma loaded_length: "length (loadStarredConfigs JSON_parse window) \<le> 50"
proof (cases window)
  case None
  then show ?thesis by (simp add: loadStarredConfigs_def)
next
  case (Some getItem)
  show ?thesis
    by (cases "safeJsonParse JSON_parse (getItem STORAGE_KEY)")
       (simp_all add: Some loadStarredConfigs_def Let_def MAX_ITEMS_def)
qed

lemma loaded_sorted:
  "sorted_wrt (\<lambda>a b. \<not> js_lt (sc_createdAt a) (sc_createdAt b)) (loadStarredConfigs JSON_parse window)"
proof (cases window)
  case None
  then show ?thesis by (simp add: loadStarredConfigs_def)
next
  case (Some getItem)
  show ?thesis
  proof (cases "safeJsonParse JSON_parse (getItem STORAGE_KEY)")
    case (JArray arr)
    let ?out = "loadStarredConfigs JSON_parse (Some getItem)"
    have s: "sorted_wrt (\<lambda>a b. finite_value (sc_createdAt b) \<le> finite_value (sc_createdAt a)) ?out"
      unfolding loadStarredConfigs_array[of JSON_parse getItem arr, OF JArray]
      by (intro sorted_wrt_take sorted_sort_newest_first)
    have fin: "isFinite (sc_createdAt e)" if "e \<in> set ?out" for e
      using loaded_props[of JSON_parse getItem arr e, OF JArray that] by simp
    have "sorted_wrt (\<lambda>a b. \<not> js_lt (sc_createdAt a) (sc_createdAt b)) ?out"
      using s by (rule sorted_wrt_mono_rel[rotated]) (simp add: not_lt_finite fin)
    then show ?thesis by (simp add: Some)
  qed (simp_all add: Some loadStarredConfigs_def Let_def)
qed

lemma loaded_empty:
  "window = None \<or> (\<exists>getItem. window = Some getItem
       \<and> (\<forall>arr. safeJsonParse JSON_parse (getItem STORAGE_KEY) \<noteq> JArray arr))
   \<Longrightarrow> loadStarredConfigs JSON_parse window = []"
proof (cases window)
  case None
  then show ?thesis by (simp add: loadStarredConfigs_def)
next
  case (Some getItem)
  assume "window = None \<or> (\<exists>getItem. window = Some getItem
       \<and> (\<forall>arr. safeJsonParse JSON_parse (getItem STORAGE_KEY) \<noteq> JArray arr))"
  then have "\<forall>arr. safeJsonParse JSON_parse (getItem STORAGE_KEY) \<noteq> JArray arr"
    using Some by auto
  then show ?thesis
    by (cases "safeJsonParse JSON_parse (getItem STORAGE_KEY)")
       (simp_all add: Some loadStarredConfigs_def Let_def)
qed

lemma malformed_is_null:
  "getItem STORAGE_KEY = Some raw \<Longrightarrow> JSON_parse raw = None \<Longrightarrow>
   safeJsonParse JSON_parse (getItem STORAGE_KEY) = JNull"
  by (simp add: safeJsonParse_def)

lemma dedupe_loop_keeps_out: "set out \<subseteq> set (dedupe_loop items seen out)"
proof (induction items arbitrary: seen out)
  case Nil
  show ?case by simp
next
  case (Cons item items)
  let ?n = "normalized_entry item"
  show ?case
  proof (cases "sc_id ?n = [] \<or> sc_id ?n \<in> set seen")
    case True
    then show ?thesis using Cons.IH[of out seen] by (simp only: dedupe_loop_step if_True)
  next
    case False
    have "set out \<subseteq> set (out @ [?n])" by auto
    also have "\<dots> \<subseteq> set (dedupe_loop items (seen @ [sc_id ?n]) (out @ [?n]))" by (rule Cons.IH)
    finally show ?thesis using False by (simp only: dedupe_loop_step if_False)
  qed
qed

lemma dedupe_loop_complete:
  "sc_id e \<noteq> [] \<Longrightarrow> sc_id e \<notin> set seen \<Longrightarrow>
   find (\<lambda>x. sc_id x = sc_id e) (map normalized_entry items) = Some e \<Longrightarrow>
   e \<in> set (dedupe_loop items seen out)"
proof (induction items arbitrary: seen out)
  case Nil
  then show ?case by simp
next
  case (Cons item items)
  let ?n = "normalized_entry item"
  show ?case
  proof (cases "sc_id ?n = sc_id e")
    case True
    then have en: "e = ?n" using Cons.prems(3) by simp
    then have new: "\<not> (sc_id ?n = [] \<or> sc_id ?n \<in> set seen)" using Cons.prems(1,2) by simp
    have "e \<in> set (out @ [?n])" using en by simp
    then have "e \<in> set (dedupe_loop items (seen @ [sc_id ?n]) (out @ [?n]))"
      using dedupe_loop_keeps_out by blast
    then show ?thesis using new by (simp only: dedupe_loop_step if_False)
  next
    case False
    then have f: "find (\<lambda>x. sc_id x = sc_id e) (map normalized_entry items) = Some e"
      using Cons.prems(3) by simp
    show ?thesis
    proof (cases "sc_id ?n = [] \<or> sc_id ?n \<in> set seen")
      case True
      then show ?thesis
        using Cons.IH[OF Cons.prems(1,2) f] by (simp only: dedupe_loop_step if_True)
    next
      case new: False
      have "sc_id e \<notin> set (seen @ [sc_id ?n])" using Cons.prems(2) False by auto
      from Cons.IH[OF Cons.prems(1) this f] show ?thesis
        using new by (simp only: dedupe_loop_step if_False)
    qed
  qed
qed

lemma set_dedupe_loop:
  "set (dedupe_loop items [] []) =
     {e. sc_id e \<noteq> [] \<and> find (\<lambda>x. sc_id x = sc_id e) (map normalized_entry items) = Some e}"
proof (intro set_eqI iffI)
  fix e
  assume "e \<in> set (dedupe_loop items [] [])"
  from dedupe_loop_mem[OF this]
  show "e \<in> {e. sc_id e \<noteq> [] \<and> find (\<lambda>x. sc_id x = sc_id e) (map normalized_entry items) = Some e}"
    by simp
next
  fix e
  assume "e \<in> {e. sc_id e \<noteq> [] \<and> find (\<lambda>x. sc_id x = sc_id e) (map normalized_entry items) = Some e}"
  then show "e \<in> set (dedupe_loop items [] [])"
    by (intro dedupe_loop_complete) simp_all
qed

lemma find_exists: "x \<in> set xs \<Longrightarrow> P x \<Longrightarrow> \<exists>y. find P xs = Some y \<and> P y"
  by (induction xs) auto

lemma find_Some_sat: "find P xs = Some x \<Longrightarrow> P x"
  by (induction xs) (auto split: if_splits)

lemma ids_dedupe_loop:
  "sc_id ` set (dedupe_loop items [] []) =
     {i. i \<noteq> [] \<and> (\<exists>item \<in> set items. sc_id (normalized_entry item) = i)}"
proof (intro set_eqI iffI)
  fix i
  assume "i \<in> sc_id ` set (dedupe_loop items [] [])"
  then obtain e where e: "e \<in> set (dedupe_loop items [] [])" "i = sc_id e" by auto
  from e(1) have ne: "sc_id e \<noteq> []"
    and f: "find (\<lambda>x. sc_id x = sc_id e) (map normalized_entry items) = Some e"
    by (simp_all add: set_dedupe_loop)
  from find_Some_mem[OF f] obtain item where "item \<in> set items" "e = normalized_entry item"
    by auto
  then show "i \<in> {i. i \<noteq> [] \<and> (\<exists>item \<in> set items. sc_id (normalized_entry item) = i)}"
    using ne e(2) by auto
next
  fix i
  assume "i \<in> {i. i \<noteq> [] \<and> (\<exists>item \<in> set items. sc_id (normalized_entry item) = i)}"
  then obtain item where ne: "i \<noteq> []" and item: "item \<in> set items" "sc_id (normalized_entry item) = i"
    by auto
  have "normalized_entry item \<in> set (map normalized_entry items)" using item(1) by simp
  from find_exists[OF this, of "\<lambda>x. sc_id x = i"] item(2)
  obtain y where y: "find (\<lambda>x. sc_id x = i) (map normalized_entry items) = Some y" "sc_id y = i"
    by auto
  then have "y \<in> set (dedupe_loop items [] [])" using ne by (simp add: set_dedupe_loop)
  then show "i \<in> sc_id ` set (dedupe_loop items [] [])" using y(2) by force
qed

lemma length_dedupe_loop:
  "length (dedupe_loop items [] []) =
     card {i. i \<noteq> [] \<and> (\<exists>item \<in> set items. sc_id (normalized_entry item) = i)}"
proof -
  have d: "distinct (map sc_id (dedupe_loop items [] []))"
    by (rule dedupe_loop_distinct) simp_all
  have "length (dedupe_loop items [] []) = length (map sc_id (dedupe_loop items [] []))" by simp
  also have "\<dots> = card (set (map sc_id (dedupe_loop items [] [])))"
    using d by (rule distinct_card[symmetric])
  also have "\<dots> = card {i. i \<noteq> [] \<and> (\<exists>item \<in> set items. sc_id (normalized_entry item) = i)}"
    by (simp add: ids_dedupe_loop)
  finally show ?thesis .
qed

lemma length_sort_newest_first: "length (sort_newest_first out) = length out"
  by (simp add: sort_newest_first_def)

lemma valid_ids:
  "{i. i \<noteq> [] \<and> (\<exists>item \<in> set (filter isStarredConfig arr). sc_id (normalized_entry item) = i)}
     = {i. i \<noteq> [] \<and> (\<exists>item \<in> set arr. isStarredConfig item \<and> sc_id (normalized_entry item) = i)}"
  by auto

lemma loaded_length_exact:
  assumes "safeJsonParse JSON_parse (getItem STORAGE_KEY) = JArray arr"
  shows "length (loadStarredConfigs JSON_parse (Some getItem)) =
           min 50 (card {i. i \<noteq> [] \<and>
                   (\<exists>item \<in> set arr. isStarredConfig item \<and> sc_id (normalized_entry item) = i)})"
proof -
  have "length (take MAX_ITEMS (sort_newest_first (dedupe_loop (filter isStarredConfig arr) [] [])))
      = min 50 (length (dedupe_loop (filter isStarredConfig arr) [] []))"
    by (simp add: length_sort_newest_first MAX_ITEMS_def min.commute)
  also have "length (dedupe_loop (filter isStarredConfig arr) [] []) =
      card {i. i \<noteq> [] \<and>
              (\<exists>item \<in> set (filter isStarredConfig arr). sc_id (normalized_entry item) = i)}"
    by (rule length_dedupe_loop)
  also have "{i. i \<noteq> [] \<and>
              (\<exists>item \<in> set (filter isStarredConfig arr). sc_id (normalized_entry item) = i)}
      = {i. i \<noteq> [] \<and>
              (\<exists>item \<in> set arr. isStarredConfig item \<and> sc_id (normalized_entry item) = i)}"
    by (rule valid_ids)
  finally show ?thesis
    unfolding loadStarredConfigs_array[of JSON_parse getItem arr, OF assms] .
qed

lemma loaded_complete:
  assumes p: "safeJsonParse JSON_parse (getItem STORAGE_KEY) = JArray arr"
    and ne: "sc_id e \<noteq> []"
    and f: "find (\<lambda>x. sc_id x = sc_id e) (map normalized_entry (filter isStarredConfig arr)) = Some e"
  shows "e \<in> set (loadStarredConfigs JSON_parse (Some getItem))
       \<or> (length (loadStarredConfigs JSON_parse (Some getItem)) = 50
          \<and> (\<forall>e' \<in> set (loadStarredConfigs JSON_parse (Some getItem)).
                \<not> js_lt (sc_createdAt e') (sc_createdAt e)))"
proof (cases "e \<in> set (loadStarredConfigs JSON_parse (Some getItem))")
  case True
  then show ?thesis by simp
next
  case False
  define s where "s = sort_newest_first (dedupe_loop (filter isStarredConfig arr) [] [])"
  have out: "loadStarredConfigs JSON_parse (Some getItem) = take 50 s"
    unfolding loadStarredConfigs_array[of JSON_parse getItem arr, OF p] s_def MAX_ITEMS_def ..
  have "e \<in> set (dedupe_loop (filter isStarredConfig arr) [] [])"
    using ne f by (simp add: set_dedupe_loop)
  then have es: "e \<in> set s" by (simp add: s_def set_sort_newest_first)
  have "set s = set (take 50 s) \<union> set (drop 50 s)"
    by (metis append_take_drop_id set_append)
  then have ed: "e \<in> set (drop 50 s)" using es False out by auto
  then have "drop 50 s \<noteq> []" by auto
  then have len: "length (take 50 s) = 50" by simp
  have srt: "sorted_wrt (\<lambda>a b. finite_value (sc_createdAt b) \<le> finite_value (sc_createdAt a))
               (take 50 s @ drop 50 s)"
    using sorted_sort_newest_first[of "dedupe_loop (filter isStarredConfig arr) [] []"]
    by (simp add: s_def)
  have fin_e: "isFinite (sc_createdAt e)"
  proof -
    from find_Some_mem[OF f] obtain item where "isStarredConfig item" "e = normalized_entry item"
      by auto
    then show ?thesis using isStarredConfig_finite by blast
  qed
  have "\<not> js_lt (sc_createdAt e') (sc_createdAt e)" if "e' \<in> set (take 50 s)" for e'
  proof -
    have "finite_value (sc_createdAt e) \<le> finite_value (sc_createdAt e')"
      using srt that ed unfolding sorted_wrt_append by blast
    moreover have "isFinite (sc_createdAt e')"
      using loaded_props[of JSON_parse getItem arr e', OF p] that out by simp
    ultimately show ?thesis using fin_e by (simp add: not_lt_finite)
  qed
  then show ?thesis using len out by simp
qed

lemma filter_first_per_id:
  "filter (\<lambda>x. q (sc_id x)) (first_per_id es) = first_per_id (filter (\<lambda>x. q (sc_id x)) es)"
proof (induction es)
  case Nil
  show ?case by simp
next
  case (Cons e es)
  show ?case
  proof (cases "q (sc_id e)")
    case True
    have "filter (\<lambda>x. q (sc_id x)) (filter (\<lambda>x. sc_id x \<noteq> sc_id e) (first_per_id es))
        = filter (\<lambda>x. sc_id x \<noteq> sc_id e) (filter (\<lambda>x. q (sc_id x)) (first_per_id es))"
      by (simp add: conj_commute)
    then show ?thesis using True Cons.IH by simp
  next
    case False
    have "filter (\<lambda>x. q (sc_id x)) (filter (\<lambda>x. sc_id x \<noteq> sc_id e) (first_per_id es))
        = filter (\<lambda>x. q (sc_id x)) (first_per_id es)"
      using False by (auto intro!: filter_cong)
    then show ?thesis using False Cons.IH by simp
  qed
qed

lemma dedupe_loop_first_per_id:
  "dedupe_loop items seen out =
     out @ first_per_id (filter (\<lambda>e. sc_id e \<noteq> [] \<and> sc_id e \<notin> set seen)
                          (map normalized_entry items))"
proof (induction items arbitrary: seen out)
  case Nil
  show ?case by simp
next
  case (Cons item items)
  let ?n = "normalized_entry item"
  show ?case
  proof (cases "sc_id ?n = [] \<or> sc_id ?n \<in> set seen")
    case True
    have "dedupe_loop (item # items) seen out = dedupe_loop items seen out"
      using True by (simp only: dedupe_loop_step if_True)
    then show ?thesis using True by (auto simp: Cons.IH)
  next
    case False
    have step: "dedupe_loop (item # items) seen out
        = dedupe_loop items (seen @ [sc_id ?n]) (out @ [?n])"
      using False by (simp only: dedupe_loop_step if_False)
    have "filter (\<lambda>x. sc_id x \<noteq> sc_id ?n)
            (first_per_id (filter (\<lambda>e. sc_id e \<noteq> [] \<and> sc_id e \<notin> set seen) (map normalized_entry items)))
        = first_per_id (filter (\<lambda>x. sc_id x \<noteq> sc_id ?n)
            (filter (\<lambda>e. sc_id e \<noteq> [] \<and> sc_id e \<notin> set seen) (map normalized_entry items)))"
      by (rule filter_first_per_id[of "\<lambda>i. i \<noteq> sc_id (normalized_entry item)"])
    also have "filter (\<lambda>x. sc_id x \<noteq> sc_id ?n)
            (filter (\<lambda>e. sc_id e \<noteq> [] \<and> sc_id e \<notin> set seen) (map normalized_entry items))
        = filter (\<lambda>e. sc_id e \<noteq> [] \<and> sc_id e \<notin> set (seen @ [sc_id ?n])) (map normalized_entry items)"
      by (auto intro!: filter_cong)
    finally have f: "filter (\<lambda>x. sc_id x \<noteq> sc_id ?n)
            (first_per_id (filter (\<lambda>e. sc_id e \<noteq> [] \<and> sc_id e \<notin> set seen) (map normalized_entry items)))
        = first_per_id (filter (\<lambda>e. sc_id e \<noteq> [] \<and> sc_id e \<notin> set (seen @ [sc_id ?n])) (map normalized_entry items))" .
    have "out @ first_per_id (filter (\<lambda>e. sc_id e \<noteq> [] \<and> sc_id e \<notin> set seen)
                          (map normalized_entry (item # items)))
        = (out @ [?n]) @ filter (\<lambda>x. sc_id x \<noteq> sc_id ?n)
            (first_per_id (filter (\<lambda>e. sc_id e \<noteq> [] \<and> sc_id e \<notin> set seen) (map normalized_entry items)))"
      using False by simp
    also have "\<dots> = dedupe_loop items (seen @ [sc_id ?n]) (out @ [?n])"
      unfolding f by (rule Cons.IH[symmetric])
    finally show ?thesis using step by simp
  qed
qed

lemma loaded_exact:
  assumes "safeJsonParse JSON_parse (getItem STORAGE_KEY) = JArray arr"
  shows "loadStarredConfigs JSON_parse (Some getItem) =
           take 50 (sort_key (\<lambda>e. - finite_value (sc_createdAt e))
             (first_per_id (filter (\<lambda>e. sc_id e \<noteq> [])
                (map normalized_entry (filter isStarredConfig arr)))))"
  unfolding loadStarredConfigs_array[of JSON_parse getItem arr, OF assms]
  by (simp add: dedupe_loop_first_per_id sort_newest_first_def MAX_ITEMS_def)

text \<open>
  C9 (amended). For every stored text (malformed JSON and arbitrary array contents
  included) the loaded list has at most 50 entries, no two with the same canonical id,
  ordered newest first by \<open>createdAt\<close>. Each entry is the normalized form of an item of the
  stored array that passes \<open>isStarredConfig\<close> (so its numbers are finite), its id is not
  empty, and among the valid items of the same canonical id it is the first in stored
  order. Conversely, for a stored array the length is exactly the smaller of 50 and the
  number of distinct non-empty canonical ids of the valid items; the first valid entry of
  every such id is loaded, unless the list is full and none of its 50 entries is older
  than that entry (the cut to 50 comes after the sort); and the list is the first 50 of
  the stable newest-first sort of the first entries per id, entries of equal \<open>createdAt\<close>
  staying in stored order. Without a window, with malformed JSON, or with a stored value
  that is no array, the list is empty.
\<close>

theorem loadStarredConfigs_spec:
  "length (loadStarredConfigs JSON_parse window) \<le> 50
   \<and> distinct (map sc_id (loadStarredConfigs JSON_parse window))
   \<and> sorted_wrt (\<lambda>a b. \<not> js_lt (sc_createdAt a) (sc_createdAt b))
        (loadStarredConfigs JSON_parse window)
   \<and> (\<forall>getItem arr.
         window = Some getItem \<and> safeJsonParse JSON_parse (getItem STORAGE_KEY) = JArray arr \<longrightarrow>
         (\<forall>e \<in> set (loadStarredConfigs JSON_parse window).
            (\<exists>item \<in> set arr. isStarredConfig item \<and> e = normalized_entry item)
            \<and> sc_id e \<noteq> [] \<and> sc_search e = sc_id e
            \<and> isFinite (sc_ruleDecimal e) \<and> isFinite (sc_createdAt e)
            \<and> find (\<lambda>x. sc_id x = sc_id e) (map normalized_entry (filter isStarredConfig arr))
                = Some e))
   \<and> (\<forall>getItem arr.
         window = Some getItem \<and> safeJsonParse JSON_parse (getItem STORAGE_KEY) = JArray arr \<longrightarrow>
         length (loadStarredConfigs JSON_parse window) =
           min 50 (card {i. i \<noteq> [] \<and>
                   (\<exists>item \<in> set arr. isStarredConfig item \<and> sc_id (normalized_entry item) = i)})
         \<and> (\<forall>e. sc_id e \<noteq> []
                \<and> find (\<lambda>x. sc_id x = sc_id e) (map normalized_entry (filter isStarredConfig arr))
                    = Some e
              \<longrightarrow> e \<in> set (loadStarredConfigs JSON_parse window)
                  \<or> (length (loadStarredConfigs JSON_parse window) = 50
                     \<and> (\<forall>e' \<in> set (loadStarredConfigs JSON_parse window).
                           \<not> js_lt (sc_createdAt e') (sc_createdAt e))))
         \<and> loadStarredConfigs JSON_parse window =
             take 50 (sort_key (\<lambda>e. - finite_value (sc_createdAt e))
               (first_per_id (filter (\<lambda>e. sc_id e \<noteq> [])
                  (map normalized_entry (filter isStarredConfig arr))))))
   \<and> (window = None
        \<or> (\<exists>getItem. window = Some getItem
              \<and> (\<forall>arr. safeJsonParse JSON_parse (getItem STORAGE_KEY) \<noteq> JArray arr))
       \<longrightarrow> loadStarredConfigs JSON_parse window = [])
   \<and> (\<forall>getItem raw.
         window = Some getItem \<and> getItem STORAGE_KEY = Some raw \<and> JSON_parse raw = None
         \<longrightarrow> loadStarredConfigs JSON_parse window = [])"
proof -
  have entries: "\<forall>getItem arr.
         window = Some getItem \<and> safeJsonParse JSON_parse (getItem STORAGE_KEY) = JArray arr \<longrightarrow>
         (\<forall>e \<in> set (loadStarredConfigs JSON_parse window).
            (\<exists>item \<in> set arr. isStarredConfig item \<and> e = normalized_entry item)
            \<and> sc_id e \<noteq> [] \<and> sc_search e = sc_id e
            \<and> isFinite (sc_ruleDecimal e) \<and> isFinite (sc_createdAt e)
            \<and> find (\<lambda>x. sc_id x = sc_id e) (map normalized_entry (filter isStarredConfig arr))
                = Some e)"
  proof (intro allI impI ballI)
    fix getItem arr e
    assume h: "window = Some getItem \<and> safeJsonParse JSON_parse (getItem STORAGE_KEY) = JArray arr"
      and e: "e \<in> set (loadStarredConfigs JSON_parse window)"
    from h have p: "safeJsonParse JSON_parse (getItem STORAGE_KEY) = JArray arr" by simp
    from h e have m: "e \<in> set (loadStarredConfigs JSON_parse (Some getItem))" by simp
    show "(\<exists>item \<in> set arr. isStarredConfig item \<and> e = normalized_entry item)
            \<and> sc_id e \<noteq> [] \<and> sc_search e = sc_id e
            \<and> isFinite (sc_ruleDecimal e) \<and> isFinite (sc_createdAt e)
            \<and> find (\<lambda>x. sc_id x = sc_id e) (map normalized_entry (filter isStarredConfig arr))
                = Some e"
      using loaded_props[of JSON_parse getItem arr e, OF p m] by blast
  qed
  have kept: "\<forall>getItem arr.
         window = Some getItem \<and> safeJsonParse JSON_parse (getItem STORAGE_KEY) = JArray arr \<longrightarrow>
         length (loadStarredConfigs JSON_parse window) =
           min 50 (card {i. i \<noteq> [] \<and>
                   (\<exists>item \<in> set arr. isStarredConfig item \<and> sc_id (normalized_entry item) = i)})
         \<and> (\<forall>e. sc_id e \<noteq> []
                \<and> find (\<lambda>x. sc_id x = sc_id e) (map normalized_entry (filter isStarredConfig arr))
                    = Some e
              \<longrightarrow> e \<in> set (loadStarredConfigs JSON_parse window)
                  \<or> (length (loadStarredConfigs JSON_parse window) = 50
                     \<and> (\<forall>e' \<in> set (loadStarredConfigs JSON_parse window).
                           \<not> js_lt (sc_createdAt e') (sc_createdAt e))))
         \<and> loadStarredConfigs JSON_parse window =
             take 50 (sort_key (\<lambda>e. - finite_value (sc_createdAt e))
               (first_per_id (filter (\<lambda>e. sc_id e \<noteq> [])
                  (map normalized_entry (filter isStarredConfig arr)))))"
  proof (intro allI impI conjI)
    fix getItem arr
    assume h: "window = Some getItem \<and> safeJsonParse JSON_parse (getItem STORAGE_KEY) = JArray arr"
    then have w: "window = Some getItem"
      and p: "safeJsonParse JSON_parse (getItem STORAGE_KEY) = JArray arr" by simp_all
    show "length (loadStarredConfigs JSON_parse window) =
           min 50 (card {i. i \<noteq> [] \<and>
                   (\<exists>item \<in> set arr. isStarredConfig item \<and> sc_id (normalized_entry item) = i)})"
      unfolding w by (rule loaded_length_exact[of JSON_parse getItem arr, OF p])
    show "loadStarredConfigs JSON_parse window =
             take 50 (sort_key (\<lambda>e. - finite_value (sc_createdAt e))
               (first_per_id (filter (\<lambda>e. sc_id e \<noteq> [])
                  (map normalized_entry (filter isStarredConfig arr)))))"
      unfolding w by (rule loaded_exact[of JSON_parse getItem arr, OF p])
    fix e
    assume e: "sc_id e \<noteq> []
                \<and> find (\<lambda>x. sc_id x = sc_id e) (map normalized_entry (filter isStarredConfig arr))
                    = Some e"
    show "e \<in> set (loadStarredConfigs JSON_parse window)
                  \<or> (length (loadStarredConfigs JSON_parse window) = 50
                     \<and> (\<forall>e' \<in> set (loadStarredConfigs JSON_parse window).
                           \<not> js_lt (sc_createdAt e') (sc_createdAt e)))"
      unfolding w
      by (rule loaded_complete[of JSON_parse getItem arr e, OF p e[THEN conjunct1] e[THEN conjunct2]])
  qed
  have empty: "window = None
        \<or> (\<exists>getItem. window = Some getItem
              \<and> (\<forall>arr. safeJsonParse JSON_parse (getItem STORAGE_KEY) \<noteq> JArray arr))
       \<longrightarrow> loadStarredConfigs JSON_parse window = []"
    using loaded_empty[of window JSON_parse] by blast
  have malformed: "\<forall>getItem raw.
         window = Some getItem \<and> getItem STORAGE_KEY = Some raw \<and> JSON_parse raw = None
         \<longrightarrow> loadStarredConfigs JSON_parse window = []"
  proof (intro allI impI)
    fix getItem raw
    assume h: "window = Some getItem \<and> getItem STORAGE_KEY = Some raw \<and> JSON_parse raw = None"
    then have "safeJsonParse JSON_parse (getItem STORAGE_KEY) = JNull"
      by (simp add: safeJsonParse_def)
    then show "loadStarredConfigs JSON_parse window = []"
      using h by (simp add: loadStarredConfigs_def Let_def)
  qed
  show ?thesis
    by (rule conjI[OF loaded_length conjI[OF loaded_distinct conjI[OF loaded_sorted
          conjI[OF entries conjI[OF kept conjI[OF empty malformed]]]]]])
qed

lemma example_parsed:
  "safeJsonParse example_JSON_parse (example_storage STORAGE_KEY)
     = JArray [example_older, example_newer, example_invalid]"
  by (simp add: safeJsonParse_def example_storage_def example_JSON_parse_def example_array_def)

lemma example_loaded:
  "loadStarredConfigs example_JSON_parse (Some example_storage) = [normalized_entry example_older]"
proof -
  have v: "isStarredConfig example_older" "isStarredConfig example_newer"
    "\<not> isStarredConfig example_invalid"
    by (simp_all add: isStarredConfig_def example_older_def example_newer_def example_invalid_def)
  have n: "normalizeSearch (string_of (get_prop example_older ''search'')) = ''?r=22''"
    "normalizeSearch (string_of (get_prop example_newer ''search'')) = ''?r=22''"
    by (simp_all add: example_older_def example_newer_def)
  show ?thesis
    unfolding loadStarredConfigs_array[of example_JSON_parse example_storage, OF example_parsed]
    by (simp add: v n sort_newest_first_def MAX_ITEMS_def)
qed

theorem loadStarredConfigs_spec_witness:
  "safeJsonParse example_JSON_parse (example_storage STORAGE_KEY)
     = JArray [example_older, example_newer, example_invalid]
   \<and> sc_id (normalized_entry example_older) \<noteq> []
   \<and> find (\<lambda>x. sc_id x = sc_id (normalized_entry example_older))
        (map normalized_entry (filter isStarredConfig [example_older, example_newer, example_invalid]))
      = Some (normalized_entry example_older)
   \<and> normalized_entry example_older \<in> set (loadStarredConfigs example_JSON_parse (Some example_storage))
   \<and> length (loadStarredConfigs example_JSON_parse (Some example_storage)) = 1
   \<and> loadStarredConfigs example_JSON_parse None = []"
proof -
  note t = loadStarredConfigs_spec[of example_JSON_parse "Some example_storage"]
  note entries = t[THEN conjunct2, THEN conjunct2, THEN conjunct2, THEN conjunct1, rule_format,
      of example_storage "[example_older, example_newer, example_invalid]" "normalized_entry example_older"]
  note kept = t[THEN conjunct2, THEN conjunct2, THEN conjunct2, THEN conjunct2, THEN conjunct1,
      THEN spec, THEN spec, THEN mp,
      of example_storage "[example_older, example_newer, example_invalid]"]
  have h: "Some example_storage = Some example_storage
      \<and> safeJsonParse example_JSON_parse (example_storage STORAGE_KEY)
          = JArray [example_older, example_newer, example_invalid]"
    using example_parsed by simp
  have l1: "length (loadStarredConfigs example_JSON_parse (Some example_storage)) = 1"
    by (simp add: example_loaded)
  have ne: "sc_id (normalized_entry example_older) \<noteq> []"
    by (simp add: normalized_entry_def Let_def example_older_def)
  have m0: "normalized_entry example_older \<in> set (loadStarredConfigs example_JSON_parse (Some example_storage))"
    by (simp add: example_loaded)
  have f: "find (\<lambda>x. sc_id x = sc_id (normalized_entry example_older))
        (map normalized_entry (filter isStarredConfig [example_older, example_newer, example_invalid]))
      = Some (normalized_entry example_older)"
    using entries example_parsed m0 by blast
  have "normalized_entry example_older \<in> set (loadStarredConfigs example_JSON_parse (Some example_storage))
      \<or> (length (loadStarredConfigs example_JSON_parse (Some example_storage)) = 50
          \<and> (\<forall>e' \<in> set (loadStarredConfigs example_JSON_parse (Some example_storage)).
                \<not> js_lt (sc_createdAt e') (sc_createdAt (normalized_entry example_older))))"
    using kept[OF h, THEN conjunct2, THEN conjunct1, THEN spec, of "normalized_entry example_older"]
      ne f by blast
  then have m: "normalized_entry example_older \<in> set (loadStarredConfigs example_JSON_parse (Some example_storage))"
    using l1 by auto
  have e: "loadStarredConfigs example_JSON_parse None = []"
    using loadStarredConfigs_spec[of example_JSON_parse None, THEN conjunct2, THEN conjunct2,
        THEN conjunct2, THEN conjunct2, THEN conjunct2, THEN conjunct1]
    by simp
  show ?thesis using example_parsed ne f m l1 e by blast
qed

text \<open>
  The stored list holds the same configuration twice, the entry of \<open>createdAt = 1\<close> before
  the one of \<open>createdAt = 2\<close>; both are valid. The loaded list keeps the first, the older.
\<close>

theorem loadStarredConfigs_first_wins_counterexample:
  "loadStarredConfigs example_JSON_parse (Some example_storage) = [normalized_entry example_older]
   \<and> isStarredConfig example_newer
   \<and> sc_id (normalized_entry example_newer) = sc_id (normalized_entry example_older)
   \<and> sc_createdAt (normalized_entry example_older) = num 1
   \<and> sc_createdAt (normalized_entry example_newer) = num 2"
proof -
  have "isStarredConfig example_newer"
    by (simp add: isStarredConfig_def example_newer_def)
  moreover have "sc_id (normalized_entry example_newer) = sc_id (normalized_entry example_older)"
    by (simp add: normalized_entry_def Let_def example_older_def example_newer_def)
  moreover have "sc_createdAt (normalized_entry example_older) = num 1"
    "sc_createdAt (normalized_entry example_newer) = num 2"
    by (simp_all add: normalized_entry_def Let_def example_older_def example_newer_def)
  ultimately show ?thesis using example_loaded by blast
qed

end
